theory Spec2Isabelle
  imports Main "HOL-Library.Multiset"
begin

section \<open>Data model\<close>

text \<open>
  The task states are the choices of the \<^verbatim>\<open>state\<close> column
  (\<^verbatim>\<open>migrations/0002_auto_20190821_1258.py\<close>): open, dirty, checked, manual.
\<close>

datatype task_state = OPEN | DIRTY | CHECKED | MANUAL

text \<open>
  Values that travel through the views: the strings and string lists of a POST body, the
  dictionaries and lists into which \<^verbatim>\<open>unpack_post\<close> nests them, and \<^verbatim>\<open>None\<close>.
  A Python \<^verbatim>\<open>dict\<close> is an association list in insertion order; its keys are kept
  distinct by \<open>dict_set\<close> below.
\<close>

datatype pyval = PNone | PStr string | PList "pyval list" | PDict "(string \<times> pyval) list"

text \<open>
  The exceptions the modelled code raises. \<open>FieldNameNotValid\<close> is the plain
  \<^verbatim>\<open>Exception("Field name not valid: ...")\<close> of \<^verbatim>\<open>unpack_post\<close>;
  \<open>DpathError\<close> stands for an exception raised inside the third-party library
  \<^verbatim>\<open>dpath\<close>, whose class depends on the library's version. \<open>DoesNotExist\<close>
  and \<open>TaskNotDirty\<close> are raised only by the model of \<^verbatim>\<open>verified_manually\<close> below.
\<close>

datatype py_error =
    NoTasksLeft
  | KeyError string
  | ValueError string
  | AttributeError string
  | TypeError string
  | FieldNameNotValid string
  | DpathError
  | DoesNotExist
  | TaskNotDirty

text \<open>
  A row of \<^verbatim>\<open>Task\<close>. The priority is a \<^verbatim>\<open>DecimalField\<close> with two decimal
  places between 0.0 and 1.0; it is held here as the number of hundredths.
\<close>

record task =
  tid :: nat
  task_type :: string
  state :: task_state
  priority :: int
  parent_id :: "nat option"
  doc_id :: nat

text \<open>A row of \<^verbatim>\<open>Entry\<close>, as the views construct it.\<close>

record entry =
  task_id :: nat
  user :: nat
  data :: pyval
  closed_manually :: bool

text \<open>
  The state the views read and write: the two tables, and the messages queued for the
  user by \<^verbatim>\<open>messages.add_message\<close>.
\<close>

record store =
  tasks :: "task list"
  entries :: "entry list"
  messages :: "string list"

section \<open>Choosing a task: \<^verbatim>\<open>TaskView.choose_a_task\<close>\<close>

text \<open>
  \<^verbatim>\<open>Task.objects.filter(state=Task.OPEN).exclude(entry__user=self.request.user)
      .order_by('-priority')[:20]\<close>

  \<open>has_entry_by\<close> is the condition of the \<^verbatim>\<open>exclude\<close>: some entry of the task was
  made by the user. The database leaves the order among equal priorities open; the model
  takes the stable order of the table's rows.
\<close>

definition has_entry_by :: "store \<Rightarrow> nat \<Rightarrow> task \<Rightarrow> bool" where
  "has_entry_by st u t = list_ex (\<lambda>e. task_id e = tid t \<and> user e = u) (entries st)"

definition open_tasks_without_entry :: "store \<Rightarrow> nat \<Rightarrow> task list" where
  "open_tasks_without_entry st u =
     filter (\<lambda>t. \<not> has_entry_by st u t) (filter (\<lambda>t. state t = OPEN) (tasks st))"

definition order_by_priority_desc :: "task list \<Rightarrow> task list" where
  "order_by_priority_desc ts = sort_key (\<lambda>t. - priority t) ts"

definition top_tasks :: "store \<Rightarrow> nat \<Rightarrow> task list" where
  "top_tasks st u = take 20 (order_by_priority_desc (open_tasks_without_entry st u))"

text \<open>
  \<^verbatim>\<open>random.choice(seq)\<close> returns \<^verbatim>\<open>seq[i]\<close> for a random index \<open>i\<close> below
  \<^verbatim>\<open>len(seq)\<close>; the draw \<open>r\<close> is an argument of the model, reduced below the length.
\<close>

definition random_choice :: "nat \<Rightarrow> 'a list \<Rightarrow> 'a" where
  "random_choice r xs = xs ! (r mod length xs)"

text \<open>
  The method only reads the tables; the store comes back with the result so that this can
  be stated.
\<close>

definition choose_a_task :: "store \<Rightarrow> nat \<Rightarrow> nat \<Rightarrow> (py_error + task) \<times> store" where
  "choose_a_task st u r =
     (let ts = top_tasks st u in
      if ts = [] then (Inl NoTasksLeft, st)
      else (Inr (random_choice r ts), st))"

text \<open>An example store: two open tasks and a dirty one; user 7 has entered task 1.\<close>

definition store1 :: store where
  "store1 =
     \<lparr>tasks =
        [\<lparr>tid = 1, task_type = ''t'', state = OPEN, priority = 100, parent_id = None, doc_id = 1\<rparr>,
         \<lparr>tid = 2, task_type = ''t'', state = OPEN, priority = 50, parent_id = Some 1, doc_id = 1\<rparr>,
         \<lparr>tid = 3, task_type = ''t'', state = DIRTY, priority = 100, parent_id = Some 1, doc_id = 1\<rparr>],
      entries = [\<lparr>task_id = 1, user = 7, data = PDict [], closed_manually = False\<rparr>],
      messages = []\<rparr>"

subsection \<open>What is chosen\<close>

text \<open>
  In a list sorted by descending key, the elements with a key strictly above that of
  position \<open>i\<close> all stand before position \<open>i\<close>.
\<close>

lemma sorted_desc_filter_gt:
  fixes f :: "'a \<Rightarrow> int"
  assumes "sorted (map (\<lambda>t. - f t) xs)" "i < length xs"
  shows "length (filter (\<lambda>t'. f (xs ! i) < f t') xs) \<le> i"
proof -
  have "filter (\<lambda>t'. f (xs ! i) < f t') (drop i xs) = []"
  proof -
    have "\<forall>y \<in> set (drop i xs). \<not> f (xs ! i) < f y"
    proof
      fix y assume "y \<in> set (drop i xs)"
      then obtain j where j: "j < length (drop i xs)" "y = drop i xs ! j"
        by (auto simp: in_set_conv_nth)
      then have "y = xs ! (i + j)" "i + j < length xs" by auto
      with assms(1) have "(map (\<lambda>t. - f t) xs) ! i \<le> (map (\<lambda>t. - f t) xs) ! (i + j)"
        by (intro sorted_nth_mono) auto
      with \<open>y = xs ! (i + j)\<close> \<open>i + j < length xs\<close> assms(2) show "\<not> f (xs ! i) < f y"
        by simp
    qed
    then show ?thesis by (simp add: filter_empty_conv)
  qed
  then have "filter (\<lambda>t'. f (xs ! i) < f t') xs = filter (\<lambda>t'. f (xs ! i) < f t') (take i xs)"
    by (metis append_Nil2 append_take_drop_id filter_append)
  then have "length (filter (\<lambda>t'. f (xs ! i) < f t') xs) \<le> length (take i xs)"
    by (metis length_filter_le)
  then show ?thesis by simp
qed

lemma length_filter_sort_key:
  "length (filter P (sort_key f xs)) = length (filter P xs)"
proof -
  have "mset (filter P (sort_key f xs)) = mset (filter P xs)" by simp
  then show ?thesis by (metis size_mset)
qed

lemma choose_a_task_store1:
  "choose_a_task store1 7 0 =
     (Inr \<lparr>tid = 2, task_type = ''t'', state = OPEN, priority = 50, parent_id = Some 1, doc_id = 1\<rparr>,
      store1)"
  by (simp add: choose_a_task_def top_tasks_def order_by_priority_desc_def
      open_tasks_without_entry_def has_entry_by_def random_choice_def store1_def)

text \<open>
  Claim C1. Whatever the store, the user and the random draw, a task returned by
  \<open>choose_a_task\<close> is a row of the task table in state open, no entry of that task was
  made by the user, it is one of the first 20 tasks of the open tasks without an entry of
  the user in descending priority, and fewer than 20 of those tasks have a strictly higher
  priority than it.
\<close>

theorem choose_a_task_sound:
  assumes "choose_a_task st u r = (Inr t, st')"
  shows "t \<in> set (tasks st) \<and> state t = OPEN
       \<and> \<not> (\<exists>e \<in> set (entries st). task_id e = tid t \<and> user e = u)
       \<and> t \<in> set (take 20 (order_by_priority_desc (open_tasks_without_entry st u)))
       \<and> length (filter (\<lambda>t'. priority t < priority t') (open_tasks_without_entry st u)) < 20"
proof -
  let ?el = "open_tasks_without_entry st u"
  let ?xs = "order_by_priority_desc ?el"
  let ?ts = "top_tasks st u"
  from assms have ne: "?ts \<noteq> []" and t: "t = ?ts ! (r mod length ?ts)"
    by (auto simp: choose_a_task_def Let_def random_choice_def split: if_splits)
  let ?i = "r mod length ?ts"
  have i: "?i < length ?ts" using ne by simp
  have len: "length ?ts \<le> 20" "length ?ts \<le> length ?xs" by (simp_all add: top_tasks_def)
  have tx: "t = ?xs ! ?i" using t i by (simp add: top_tasks_def)
  have "t \<in> set ?ts" using t i nth_mem by blast
  then have win: "t \<in> set (take 20 ?xs)" by (simp add: top_tasks_def)
  then have "t \<in> set ?xs" by (rule in_set_takeD)
  then have el: "t \<in> set ?el" by (simp add: order_by_priority_desc_def)
  have srt: "sorted (map (\<lambda>t. - priority t) ?xs)"
    by (simp add: order_by_priority_desc_def)
  have "length (filter (\<lambda>t'. priority (?xs ! ?i) < priority t') ?xs) \<le> ?i"
    using srt i len by (intro sorted_desc_filter_gt) auto
  then have "length (filter (\<lambda>t'. priority t < priority t') ?xs) < 20"
    using tx i len by simp
  then have cnt: "length (filter (\<lambda>t'. priority t < priority t') ?el) < 20"
    by (simp add: order_by_priority_desc_def length_filter_sort_key)
  from el show ?thesis using win cnt
    by (auto simp: open_tasks_without_entry_def has_entry_by_def list_ex_iff)
qed

theorem choose_a_task_sound_witness:
  "choose_a_task store1 7 0 =
     (Inr \<lparr>tid = 2, task_type = ''t'', state = OPEN, priority = 50, parent_id = Some 1, doc_id = 1\<rparr>,
      store1)
   \<and> \<lparr>tid = 2, task_type = ''t'', state = OPEN, priority = 50, parent_id = Some 1, doc_id = 1\<rparr>
       \<in> set (take 20 (order_by_priority_desc (open_tasks_without_entry store1 7)))"
  using choose_a_task_sound [OF choose_a_task_store1] choose_a_task_store1 by blast

text \<open>
  Claim C2. \<open>choose_a_task\<close> raises \<open>NoTasksLeft\<close> exactly when no task of the table is
  open and without an entry of the user; it raises nothing else; and the store it leaves
  is the store it found, in particular when it fails.
\<close>

theorem choose_a_task_fails_iff:
  "(fst (choose_a_task st u r) = Inl NoTasksLeft
      \<longleftrightarrow> {t \<in> set (tasks st). state t = OPEN
              \<and> \<not> (\<exists>e \<in> set (entries st). task_id e = tid t \<and> user e = u)} = {})
   \<and> ((\<exists>e. fst (choose_a_task st u r) = Inl e)
      \<longleftrightarrow> fst (choose_a_task st u r) = Inl NoTasksLeft)
   \<and> snd (choose_a_task st u r) = st"
proof -
  have "top_tasks st u = [] \<longleftrightarrow> open_tasks_without_entry st u = []"
    by (simp add: top_tasks_def order_by_priority_desc_def take_eq_Nil)
      (metis length_0_conv length_sort)
  moreover have "open_tasks_without_entry st u = [] \<longleftrightarrow>
     {t \<in> set (tasks st). state t = OPEN
        \<and> \<not> (\<exists>e \<in> set (entries st). task_id e = tid t \<and> user e = u)} = {}"
    by (auto simp: open_tasks_without_entry_def has_entry_by_def list_ex_iff filter_empty_conv)
  ultimately show ?thesis
    by (auto simp: choose_a_task_def Let_def)
qed

theorem choose_a_task_fails_iff_witness:
  "fst (choose_a_task \<lparr>tasks = [], entries = [], messages = []\<rparr> 7 0) = Inl NoTasksLeft
   \<and> snd (choose_a_task \<lparr>tasks = [], entries = [], messages = []\<rparr> 7 0)
       = \<lparr>tasks = [], entries = [], messages = []\<rparr>"
  using choose_a_task_fails_iff [of "\<lparr>tasks = [], entries = [], messages = []\<rparr>" 7 0]
  by simp

section \<open>The form-data normalizer: \<^verbatim>\<open>unpack_post\<close>\<close>

subsection \<open>The POST data\<close>

text \<open>
  \<^verbatim>\<open>request.POST\<close> is a \<^verbatim>\<open>QueryDict\<close> parsed from the request body: the pairs of
  field name and value in the order of the body, a name possibly repeated.
  \<^verbatim>\<open>keys()\<close> lists each name once, in the order of its first occurrence, and
  \<^verbatim>\<open>getlist(key)\<close> gives all values of a name in order (the empty list for a name
  that is absent).
\<close>

type_synonym querydict = "(string \<times> string) list"

definition keys :: "querydict \<Rightarrow> string list" where
  "keys post = rev (remdups (rev (map fst post)))"

definition getlist :: "querydict \<Rightarrow> string \<Rightarrow> string list" where
  "getlist post key = map snd (filter (\<lambda>kv. fst kv = key) post)"

subsection \<open>The field name pattern\<close>

text \<open>
  Strings are ASCII: \<^verbatim>\<open>\d\<close> is a decimal digit and \<^verbatim>\<open>\w\<close> a letter, a digit or
  the underscore (Python's further Unicode word characters are outside the model). Both
  character classes of the pattern, \<^verbatim>\<open>[\w\-_]\<close> and \<^verbatim>\<open>[\d\w\-_]\<close>, are
  \<open>is_name_char\<close>.
\<close>

definition is_digit :: "char \<Rightarrow> bool" where
  "is_digit c = (c \<in> set ''0123456789'')"

definition is_word :: "char \<Rightarrow> bool" where
  "is_word c = (is_digit c \<or> c \<in> set ''abcdefghijklmnopqrstuvwxyz''
      \<or> c \<in> set ''ABCDEFGHIJKLMNOPQRSTUVWXYZ'' \<or> c = CHR ''_'')"

definition is_name_char :: "char \<Rightarrow> bool" where
  "is_name_char c = (is_word c \<or> c = CHR ''-'' \<or> c = CHR ''_'')"

text \<open>
  \<^verbatim>\<open>re.search(r"^(?P<object>[\w\-_]+)(?P<selectors>(\[[\d\w\-_]+\])*)(?P<trailing_brackets>\[\])?$", k)\<close>

  \<open>parse_selectors\<close> reads what follows the object name: any number of bracketed,
  non-empty selectors, then optionally \<^verbatim>\<open>[]\<close>, then the end. It returns the selectors
  (what \<^verbatim>\<open>re.finditer(r'\[([\d\w\-_]+)\]', ...)\<close> yields from the selectors group) and
  whether the trailing brackets matched. Python's \<^verbatim>\<open>$\<close> also matches just before a
  newline that ends the string.
\<close>

function parse_selectors :: "string \<Rightarrow> (string list \<times> bool) option" where
  "parse_selectors s =
     (if s = [] \<or> s = [CHR 0x0A] then Some ([], False)
      else if hd s \<noteq> CHR ''['' then None
      else (let idx = takeWhile is_name_char (tl s); rest = dropWhile is_name_char (tl s) in
            if rest = [] \<or> hd rest \<noteq> CHR '']'' then None
            else if idx = [] then
              (if tl rest = [] \<or> tl rest = [CHR 0x0A] then Some ([], True) else None)
            else map_option (\<lambda>(sels, tb). (idx # sels, tb)) (parse_selectors (tl rest))))"
  by pat_completeness auto
termination
proof (relation "measure length", goal_cases)
  case 1 show ?case by simp
next
  case (2 s idx rest)
  have "length (dropWhile is_name_char (tl s)) \<le> length (tl s)" by (rule length_dropWhile_le)
  with 2 show ?case by (cases s; cases "dropWhile is_name_char (tl s)") auto
qed

declare parse_selectors.simps [simp del]

text \<open>The match object as (object, selectors, trailing brackets present); \<open>None\<close> for no match.\<close>

definition parse_field_name :: "string \<Rightarrow> (string \<times> string list \<times> bool) option" where
  "parse_field_name k =
     (let obj = takeWhile is_name_char k in
      if obj = [] then None
      else map_option (\<lambda>(sels, tb). (obj, sels, tb)) (parse_selectors (dropWhile is_name_char k)))"

text \<open>\<^verbatim>\<open>re.match(r'\d+', idx)\<close> succeeds when the selector begins with a digit.\<close>

definition starts_with_digit :: "string \<Rightarrow> bool" where
  "starts_with_digit idx = (case idx of [] \<Rightarrow> False | c # cs \<Rightarrow> is_digit c)"

subsection \<open>Python's \<^verbatim>\<open>int\<close> and \<^verbatim>\<open>str\<close>\<close>

text \<open>
  \<^verbatim>\<open>int(s)\<close> for a string: surrounding whitespace is dropped, a sign may lead, and the
  digits may be grouped by single underscores. \<open>None\<close> is the \<^verbatim>\<open>ValueError\<close>.
\<close>

definition digit_val :: "char \<Rightarrow> nat" where
  "digit_val c = of_char c - 48"

fun parse_digits :: "nat \<Rightarrow> string \<Rightarrow> nat option" where
  "parse_digits acc [] = Some acc"
| "parse_digits acc [c] = (if is_digit c then Some (acc * 10 + digit_val c) else None)"
| "parse_digits acc (c # d # cs) =
     (if is_digit c then parse_digits (acc * 10 + digit_val c) (d # cs)
      else if c = CHR ''_'' \<and> is_digit d then parse_digits (acc * 10 + digit_val d) cs
      else None)"

definition parse_nat :: "string \<Rightarrow> nat option" where
  "parse_nat s =
     (case s of [] \<Rightarrow> None
      | c # cs \<Rightarrow> if is_digit c then parse_digits (digit_val c) cs else None)"

definition is_space :: "char \<Rightarrow> bool" where
  "is_space c = (c \<in> set [CHR '' '', CHR 0x09, CHR 0x0A, CHR 0x0B, CHR 0x0C, CHR 0x0D])"

definition strip :: "string \<Rightarrow> string" where
  "strip s = rev (dropWhile is_space (rev (dropWhile is_space s)))"

definition py_int :: "string \<Rightarrow> int option" where
  "py_int s =
     (case strip s of
        [] \<Rightarrow> None
      | c # cs \<Rightarrow>
          if c = CHR ''-'' then map_option (\<lambda>n. - int n) (parse_nat cs)
          else if c = CHR ''+'' then map_option int (parse_nat cs)
          else map_option int (parse_nat (c # cs)))"

definition digit_char :: "nat \<Rightarrow> char" where
  "digit_char n = ''0123456789'' ! n"

fun str_nat :: "nat \<Rightarrow> string" where
  "str_nat n =
     (if n < 10 then [digit_char n] else str_nat (n div 10) @ [digit_char (n mod 10)])"

declare str_nat.simps [simp del]

definition py_str :: "int \<Rightarrow> string" where
  "py_str i = (if i < 0 then CHR ''-'' # str_nat (nat (- i)) else str_nat (nat i))"

subsection \<open>The library \<^verbatim>\<open>dpath\<close>\<close>

text \<open>
  \<^verbatim>\<open>dpath\<close> is a third-party library and not part of the repository.
  \<^verbatim>\<open>unpack_post\<close> calls three functions of its 1.x releases, the ones the source was
  written for (its comment describes string keys making dictionaries,
  \<^verbatim>\<open>row { "0": {}, "1": {} }\<close>). What a claim says independently of
  \<^verbatim>\<open>dpath.util.new\<close> is stated for an arbitrary function in its place
  (\<open>unpack_post_with\<close> below). The model of the three functions given here serves
  examples and statements about failure.

  \<^item> \<^verbatim>\<open>new(obj, path, value)\<close> walks the document twice. The first walk
    (\<^verbatim>\<open>path_types\<close>) records for each path component the type of what the document
    holds there; the second (\<^verbatim>\<open>path.set\<close> with \<^verbatim>\<open>create_missing\<close>) follows the
    path, creates what is missing with the recorded type and assigns the value at the
    end. While the components exist both walks go the same way (\<open>new_at\<close>). At the first
    component missing from a dictionary the second walk goes on inside newly created
    objects, but the first walk stayed at that dictionary and tested the later components
    there: a later component that happens to be a key of it gives the new object the type
    of that key's value, and only a dictionary can be entered further (\<open>fresh_dict\<close>).
    A list is entered by an index only: on the way by the integer value of the component,
    which must be a position of the list, and at the end by a component that consists of
    digits, the list being padded with \<^verbatim>\<open>None\<close> up to it. Everything else raises;
    \<open>None\<close> stands for an exception.
  \<^item> \<^verbatim>\<open>get(obj, glob)\<close> returns the one element whose path matches; a list index matches
    the component that is its decimal numeral; \<^verbatim>\<open>KeyError\<close> when nothing matches.
  \<^item> \<^verbatim>\<open>set(obj, glob, value)\<close> goes to the object that holds the last component of
    the matching path and assigns the value there; it does nothing when no path matches.

  The path components of \<^verbatim>\<open>unpack_post\<close> consist of name characters, so none of them
  is a glob pattern. \<^verbatim>\<open>new\<close> is used by the first loop, which builds a tree of
  values; \<^verbatim>\<open>get\<close> and \<^verbatim>\<open>set\<close> are used by the second loop, where one object
  can be held in several places, and are modelled there.
\<close>

fun dict_set :: "'k \<Rightarrow> 'v \<Rightarrow> ('k \<times> 'v) list \<Rightarrow> ('k \<times> 'v) list" where
  "dict_set k v [] = [(k, v)]"
| "dict_set k v (p # ps) = (if fst p = k then (k, v) # ps else p # dict_set k v ps)"

fun split_on :: "char \<Rightarrow> string \<Rightarrow> string list" where
  "split_on sep [] = [[]]"
| "split_on sep (c # cs) =
     (if c = sep then [] # split_on sep cs
      else (case split_on sep cs of [] \<Rightarrow> [[c]] | w # ws \<Rightarrow> (c # w) # ws))"

text \<open>\<^verbatim>\<open>path.lstrip(separator).split(separator)\<close>\<close>

definition split_path :: "string \<Rightarrow> string list" where
  "split_path path = split_on (CHR ''/'') (dropWhile (\<lambda>c. c = CHR ''/'') path)"

text \<open>\<^verbatim>\<open>str.isdigit()\<close>\<close>

definition all_digits :: "string \<Rightarrow> bool" where
  "all_digits s = (s \<noteq> [] \<and> list_all is_digit s)"

text \<open>
  \<open>fresh_dict cur ks v\<close> is the dictionary that is newly created for a missing component
  and filled along the rest \<open>ks\<close> of the path, the types having been read off the
  dictionary \<open>cur\<close>, at which the first walk stands.
\<close>

fun fresh_dict :: "(string \<times> pyval) list \<Rightarrow> string list \<Rightarrow> pyval \<Rightarrow> pyval option" where
  "fresh_dict cur [] v = Some v"
| "fresh_dict cur [k] v = Some (PDict [(k, v)])"
| "fresh_dict cur (k # ks) v =
     (case map_of cur k of
        None \<Rightarrow> map_option (\<lambda>f. PDict [(k, f)]) (fresh_dict cur ks v)
      | Some (PDict d) \<Rightarrow> map_option (\<lambda>f. PDict [(k, f)]) (fresh_dict d ks v)
      | Some (PList xs) \<Rightarrow>
          (case ks of
             [last_k] \<Rightarrow>
               (if all_digits last_k then
                  (case py_int last_k of
                     None \<Rightarrow> None
                   | Some i \<Rightarrow> Some (PDict [(k, PList (replicate (nat i) PNone @ [v]))]))
                else None)
           | _ \<Rightarrow> None)
      | Some _ \<Rightarrow> None)"

fun new_at :: "pyval \<Rightarrow> string list \<Rightarrow> pyval \<Rightarrow> pyval option" where
  "new_at obj [] v = Some v"
| "new_at (PDict d) [k] v = Some (PDict (dict_set k v d))"
| "new_at (PDict d) (k # ks) v =
     (case map_of d k of
        None \<Rightarrow> map_option (\<lambda>f. PDict (dict_set k f d)) (fresh_dict d ks v)
      | Some c \<Rightarrow> map_option (\<lambda>c'. PDict (dict_set k c' d)) (new_at c ks v))"
| "new_at (PList xs) [k] v =
     (if all_digits k then
        (case py_int k of
           None \<Rightarrow> None
         | Some i \<Rightarrow> Some (PList ((xs @ replicate (nat i + 1 - length xs) PNone)[nat i := v])))
      else None)"
| "new_at (PList xs) (k # ks) v =
     (case py_int k of
        None \<Rightarrow> None
      | Some i \<Rightarrow>
          if 0 \<le> i \<and> nat i < length xs
          then map_option (\<lambda>c'. PList (xs[nat i := c'])) (new_at (xs ! nat i) ks v)
          else None)"
| "new_at obj (k # ks) v = None"

definition dpath_new :: "pyval \<Rightarrow> string \<Rightarrow> pyval \<Rightarrow> pyval option" where
  "dpath_new obj path v = new_at obj (split_path path) v"

subsection \<open>The first loop: one insertion per key\<close>

text \<open>
  \<^verbatim>\<open>get_list_or_value\<close> is local to the loop and reads the match \<^verbatim>\<open>m\<close> of the
  current key; the model passes it \<^verbatim>\<open>bool(m.group('trailing_brackets'))\<close>.
\<close>

definition get_list_or_value :: "bool \<Rightarrow> querydict \<Rightarrow> string \<Rightarrow> pyval" where
  "get_list_or_value trailing_brackets post key =
     (let val = getlist post key in
      if length val = 1 \<and> \<not> trailing_brackets then PStr (val ! 0) else PList (map PStr val))"

text \<open>
  \<^verbatim>\<open>convert_to_array_paths\<close> is a Python set of strings. It is held as the list of
  its elements in the order they were added; the order in which the second loop iterates
  over it is not determined by the program and is an argument of \<open>unpack_post\<close>.
\<close>

definition set_add :: "'a \<Rightarrow> 'a list \<Rightarrow> 'a list" where
  "set_add x xs = (if x \<in> set xs then xs else xs @ [x])"

text \<open>The loop over the selectors: it extends the path and records the levels to convert.\<close>

fun add_selectors :: "string list \<Rightarrow> string \<Rightarrow> string list \<Rightarrow> string \<times> string list" where
  "add_selectors [] path paths = (path, paths)"
| "add_selectors (idx # sels) path paths =
     add_selectors sels (path @ ''/'' @ idx)
       (if starts_with_digit idx then set_add path paths else paths)"

text \<open>
  The body of \<^verbatim>\<open>for k in post.keys()\<close>, on the pair of result and recorded paths.
  \<open>new\<close> is \<^verbatim>\<open>dpath.util.new\<close>; an exception raised inside it (\<open>None\<close>) leaves
  \<^verbatim>\<open>unpack_post\<close> as \<open>DpathError\<close>.
\<close>

definition insert_key_with ::
  "(pyval \<Rightarrow> string \<Rightarrow> pyval \<Rightarrow> pyval option) \<Rightarrow> querydict \<Rightarrow> string
     \<Rightarrow> pyval \<times> string list \<Rightarrow> py_error + pyval \<times> string list" where
  "insert_key_with new post k acc =
     (case parse_field_name k of
        None \<Rightarrow> Inl (FieldNameNotValid k)
      | Some (obj, sels, trailing_brackets) \<Rightarrow>
          let (path, paths) = add_selectors sels obj (snd acc) in
          (case new (fst acc) path (get_list_or_value trailing_brackets post k) of
             None \<Rightarrow> Inl DpathError
           | Some result \<Rightarrow> Inr (result, paths)))"

fun insert_keys_with ::
  "(pyval \<Rightarrow> string \<Rightarrow> pyval \<Rightarrow> pyval option) \<Rightarrow> querydict \<Rightarrow> string list
     \<Rightarrow> pyval \<times> string list \<Rightarrow> py_error + pyval \<times> string list" where
  "insert_keys_with new post [] acc = Inr acc"
| "insert_keys_with new post (k # ks) acc =
     (case insert_key_with new post k acc of
        Inl e \<Rightarrow> Inl e
      | Inr acc' \<Rightarrow> insert_keys_with new post ks acc')"

text \<open>The loop with the model of \<^verbatim>\<open>dpath.util.new\<close>.\<close>

abbreviation insert_key ::
  "querydict \<Rightarrow> string \<Rightarrow> pyval \<times> string list \<Rightarrow> py_error + pyval \<times> string list" where
  "insert_key \<equiv> insert_key_with dpath_new"

abbreviation insert_keys ::
  "querydict \<Rightarrow> string list \<Rightarrow> pyval \<times> string list \<Rightarrow> py_error + pyval \<times> string list" where
  "insert_keys \<equiv> insert_keys_with dpath_new"

subsection \<open>The second loop: dictionaries with numeric keys become lists\<close>

text \<open>
  The first loop stores every dictionary and list in one place only. The second loop does
  not: \<^verbatim>\<open>arr.append(d[str(k_int)])\<close> puts into the array the very objects the
  dictionary holds, and one object twice when two keys have the same integer value
  (\<^verbatim>\<open>-0\<close> and \<^verbatim>\<open>0\<close>). An assignment to a dictionary or list then shows in every
  place that holds it. In the second loop a dictionary or list therefore carries the
  identity of its object: \<open>Built p\<close> is the object that the first loop left at the path
  \<open>p\<close>, \<open>Array n\<close> the array made by iteration \<open>n\<close> of the second loop. A value
  with identities is the graph of objects unfolded from the result; two places of it hold
  the same object when the identities agree. Strings and \<^verbatim>\<open>None\<close> cannot be changed
  and need no identity.
\<close>

datatype ident = Built "string list" | Array nat

datatype obj = ONone | OStr string | OList ident "obj list" | ODict ident "(string \<times> obj) list"

text \<open>
  \<open>with_ids p v\<close> is the tree \<open>v\<close> found at the path \<open>p\<close>, every object named by
  its path; \<open>value_of\<close> is the value without the identities.
\<close>

fun with_ids :: "string list \<Rightarrow> pyval \<Rightarrow> obj"
  and items_with_ids :: "string list \<Rightarrow> (string \<times> pyval) list \<Rightarrow> (string \<times> obj) list"
  and elems_with_ids :: "string list \<Rightarrow> nat \<Rightarrow> pyval list \<Rightarrow> obj list" where
  "with_ids p PNone = ONone"
| "with_ids p (PStr s) = OStr s"
| "with_ids p (PList xs) = OList (Built p) (elems_with_ids p 0 xs)"
| "with_ids p (PDict d) = ODict (Built p) (items_with_ids p d)"
| "items_with_ids p [] = []"
| "items_with_ids p ((k, v) # d) = (k, with_ids (p @ [k]) v) # items_with_ids p d"
| "elems_with_ids p n [] = []"
| "elems_with_ids p n (v # xs) = with_ids (p @ [py_str (int n)]) v # elems_with_ids p (Suc n) xs"

primrec value_of :: "obj \<Rightarrow> pyval" where
  "value_of ONone = PNone"
| "value_of (OStr s) = PStr s"
| "value_of (OList i xs) = PList (map value_of xs)"
| "value_of (ODict i d) = PDict (map (map_prod id value_of) d)"

text \<open>\<^verbatim>\<open>dpath.util.get\<close>\<close>

definition list_index :: "obj list \<Rightarrow> string \<Rightarrow> nat option" where
  "list_index xs k = find (\<lambda>i. py_str (int i) = k) [0..<length xs]"

fun get_at :: "obj \<Rightarrow> string list \<Rightarrow> obj option" where
  "get_at v [] = Some v"
| "get_at (ODict i d) (k # ks) = (case map_of d k of None \<Rightarrow> None | Some c \<Rightarrow> get_at c ks)"
| "get_at (OList i xs) (k # ks) =
     (case list_index xs k of None \<Rightarrow> None | Some n \<Rightarrow> get_at (xs ! n) ks)"
| "get_at v (k # ks) = None"

definition dpath_get :: "obj \<Rightarrow> string \<Rightarrow> py_error + obj" where
  "dpath_get obj path =
     (case get_at obj (split_path path) of None \<Rightarrow> Inl (KeyError path) | Some v \<Rightarrow> Inr v)"

text \<open>
  \<^verbatim>\<open>dpath.util.set\<close>. \<open>assign c parent k v\<close> is the assignment
  \<^verbatim>\<open>parent[k] = v\<close> as it shows in \<open>c\<close>: it is made wherever \<open>c\<close> holds the object
  \<open>parent\<close>. \<open>set_at\<close> finds the object that holds the last component of the path and
  assigns to it.
\<close>

primrec assign :: "obj \<Rightarrow> ident \<Rightarrow> string \<Rightarrow> obj \<Rightarrow> obj" where
  "assign ONone parent k v = ONone"
| "assign (OStr s) parent k v = OStr s"
| "assign (OList i xs) parent k v =
     (let xs' = map (\<lambda>c. assign c parent k v) xs
      in OList i (if i = parent
           then (case list_index xs k of None \<Rightarrow> xs' | Some n \<Rightarrow> xs'[n := v]) else xs'))"
| "assign (ODict i d) parent k v =
     (let d' = map (map_prod id (\<lambda>c. assign c parent k v)) d
      in ODict i (if i = parent then dict_set k v d' else d'))"

definition set_at :: "obj \<Rightarrow> string list \<Rightarrow> obj \<Rightarrow> obj" where
  "set_at obj ks v =
     (if ks = [] \<or> get_at obj ks = None then obj
      else (case get_at obj (butlast ks) of
              Some (OList i xs) \<Rightarrow> assign obj i (last ks) v
            | Some (ODict i d) \<Rightarrow> assign obj i (last ks) v
            | _ \<Rightarrow> obj))"

definition dpath_set :: "obj \<Rightarrow> string \<Rightarrow> obj \<Rightarrow> obj" where
  "dpath_set obj path v = set_at obj (split_path path) v"

text \<open>\<^verbatim>\<open>[int(k_int) for k_int in d.keys()]\<close>\<close>

fun int_keys :: "string list \<Rightarrow> py_error + int list" where
  "int_keys [] = Inr []"
| "int_keys (k # ks) =
     (case py_int k of
        None \<Rightarrow> Inl (ValueError k)
      | Some i \<Rightarrow> (case int_keys ks of Inl e \<Rightarrow> Inl e | Inr is \<Rightarrow> Inr (i # is)))"

text \<open>\<^verbatim>\<open>for k_int in sorted(numeric_keys): arr.append(d[str(k_int)])\<close>\<close>

fun collect_items :: "(string \<times> obj) list \<Rightarrow> int list \<Rightarrow> py_error + obj list" where
  "collect_items d [] = Inr []"
| "collect_items d (i # is) =
     (case map_of d (py_str i) of
        None \<Rightarrow> Inl (KeyError (py_str i))
      | Some v \<Rightarrow> (case collect_items d is of Inl e \<Rightarrow> Inl e | Inr arr \<Rightarrow> Inr (v # arr)))"

text \<open>A value that is not a dictionary has no \<^verbatim>\<open>keys\<close>.\<close>

definition to_array :: "obj \<Rightarrow> py_error + obj list" where
  "to_array d =
     (case d of
        ODict i kvs \<Rightarrow>
          (case int_keys (map fst kvs) of
             Inl e \<Rightarrow> Inl e
           | Inr numeric_keys \<Rightarrow> collect_items kvs (sort numeric_keys))
      | _ \<Rightarrow> Inl (AttributeError ''keys''))"

text \<open>The body of the second loop, in its iteration \<open>n\<close>.\<close>

definition convert_path :: "nat \<Rightarrow> string \<Rightarrow> obj \<Rightarrow> py_error + obj" where
  "convert_path n path_to_d result =
     (case dpath_get result path_to_d of
        Inl e \<Rightarrow> Inl e
      | Inr d \<Rightarrow>
          (case to_array d of
             Inl e \<Rightarrow> Inl e
           | Inr arr \<Rightarrow> Inr (dpath_set result path_to_d (OList (Array n) arr))))"

fun convert_paths :: "nat \<Rightarrow> string list \<Rightarrow> obj \<Rightarrow> py_error + obj" where
  "convert_paths n [] result = Inr result"
| "convert_paths n (p # ps) result =
     (case convert_path n p result of
        Inl e \<Rightarrow> Inl e
      | Inr result' \<Rightarrow> convert_paths (Suc n) ps result')"

text \<open>
  \<^verbatim>\<open>unpack_post\<close>. \<open>iter_order\<close> gives the order in which the set
  \<^verbatim>\<open>convert_to_array_paths\<close> is iterated, \<open>new\<close> is \<^verbatim>\<open>dpath.util.new\<close>.
\<close>

definition unpack_post_with ::
  "(pyval \<Rightarrow> string \<Rightarrow> pyval \<Rightarrow> pyval option) \<Rightarrow> (string list \<Rightarrow> string list) \<Rightarrow> querydict
     \<Rightarrow> py_error + pyval" where
  "unpack_post_with new iter_order post =
     (case insert_keys_with new post (keys post) (PDict [], []) of
        Inl e \<Rightarrow> Inl e
      | Inr (result, convert_to_array_paths) \<Rightarrow>
          (case convert_paths 0 (iter_order convert_to_array_paths) (with_ids [] result) of
             Inl e \<Rightarrow> Inl e
           | Inr converted \<Rightarrow> Inr (value_of converted)))"

abbreviation unpack_post :: "(string list \<Rightarrow> string list) \<Rightarrow> querydict \<Rightarrow> py_error + pyval" where
  "unpack_post \<equiv> unpack_post_with dpath_new"



subsection \<open>Facts about names, paths and the two loops\<close>

lemmas char_class_defs = is_name_char_def is_word_def is_digit_def



lemma split_on_no_sep: "sep \<notin> set s \<Longrightarrow> split_on sep s = [s]"
  by (induction s) auto

lemma split_on_append:
  "sep \<notin> set a \<Longrightarrow> split_on sep (a @ sep # b) = a # split_on sep b"
  by (induction a) auto

lemma slash_not_name_char: "\<not> is_name_char (CHR ''/'')"
  by (simp add: char_class_defs)

lemma name_chars_no_slash: "list_all is_name_char s \<Longrightarrow> CHR ''/'' \<notin> set s"
  using slash_not_name_char by (auto simp: list_all_iff)


lemma takeWhile_all: "list_all P (takeWhile P xs)"
  by (induction xs) auto

lemma parse_field_name_obj:
  "parse_field_name k = Some (obj, sels, tb) \<Longrightarrow> obj \<noteq> [] \<and> list_all is_name_char obj"
  by (auto simp: parse_field_name_def Let_def takeWhile_all split: if_splits)

lemma new_at_dict_leaf: "new_at (PDict d) [k] v = Some (PDict (dict_set k v d))"
  by simp

lemma parse_a: "parse_field_name ''a'' = Some (''a'', [], False)"
  by (simp add: parse_field_name_def parse_selectors.simps char_class_defs)

lemma add_selectors_path:
  "fst (add_selectors sels path paths) = path @ concat (map ((#) (CHR ''/'')) sels)"
  by (induction sels arbitrary: path paths) auto

lemma insert_key_with_error:
  "insert_key_with new post k acc = Inl e \<Longrightarrow>
     (e = FieldNameNotValid k \<and> parse_field_name k = None) \<or> (e = DpathError \<and> parse_field_name k \<noteq> None)"
  by (auto simp: insert_key_with_def split: option.splits prod.splits)

lemma insert_keys_with_append:
  "insert_keys_with new post (xs @ ys) acc =
     (case insert_keys_with new post xs acc of Inl e \<Rightarrow> Inl e | Inr acc' \<Rightarrow> insert_keys_with new post ys acc')"
  by (induction xs arbitrary: acc) (auto split: sum.splits)

lemma insert_keys_with_field_name_error:
  "insert_keys_with new post ks acc = Inl (FieldNameNotValid k) \<longleftrightarrow>
     (\<exists>pre rest acc'. ks = pre @ k # rest \<and> parse_field_name k = None
        \<and> insert_keys_with new post pre acc = Inr acc')"
proof (induction ks arbitrary: acc)
  case Nil
  then show ?case by simp
next
  case (Cons x xs)
  show ?case
  proof (cases "insert_key_with new post x acc")
    case (Inl e)
    then have e: "(e = FieldNameNotValid x \<and> parse_field_name x = None) \<or> (e = DpathError \<and> parse_field_name x \<noteq> None)"
      by (rule insert_key_with_error)
    show ?thesis
    proof
      assume "insert_keys_with new post (x # xs) acc = Inl (FieldNameNotValid k)"
      with Inl e have "k = x" "parse_field_name x = None" by auto
      then have "x # xs = [] @ k # xs \<and> parse_field_name k = None \<and> insert_keys_with new post [] acc = Inr acc"
        by simp
      then show "\<exists>pre rest acc'. x # xs = pre @ k # rest \<and> parse_field_name k = None
        \<and> insert_keys_with new post pre acc = Inr acc'" by blast
    next
      assume "\<exists>pre rest acc'. x # xs = pre @ k # rest \<and> parse_field_name k = None
        \<and> insert_keys_with new post pre acc = Inr acc'"
      then obtain pre rest acc' where p: "x # xs = pre @ k # rest" "parse_field_name k = None"
        "insert_keys_with new post pre acc = Inr acc'" by blast
      have "pre = []"
      proof (cases pre)
        case Nil then show ?thesis .
      next
        case (Cons y ys)
        with p(1) have "y = x" by simp
        with Cons p(3) Inl show ?thesis by simp
      qed
      with p have "k = x" by simp
      with p(2) e Inl show "insert_keys_with new post (x # xs) acc = Inl (FieldNameNotValid k)" by auto
    qed
  next
    case (Inr acc1)
    have nn: "parse_field_name x \<noteq> None" using Inr by (auto simp: insert_key_with_def split: option.splits)
    have "insert_keys_with new post (x # xs) acc = Inl (FieldNameNotValid k) \<longleftrightarrow>
        (\<exists>pre rest acc'. xs = pre @ k # rest \<and> parse_field_name k = None
        \<and> insert_keys_with new post pre acc1 = Inr acc')"
      using Inr Cons.IH [of acc1] by simp
    also have "\<dots> \<longleftrightarrow> (\<exists>pre rest acc'. x # xs = pre @ k # rest \<and> parse_field_name k = None
        \<and> insert_keys_with new post pre acc = Inr acc')"
    proof
      assume "\<exists>pre rest acc'. xs = pre @ k # rest \<and> parse_field_name k = None
        \<and> insert_keys_with new post pre acc1 = Inr acc'"
      then obtain pre rest acc' where p: "xs = pre @ k # rest" "parse_field_name k = None"
        "insert_keys_with new post pre acc1 = Inr acc'" by blast
      then have "x # xs = (x # pre) @ k # rest \<and> parse_field_name k = None
        \<and> insert_keys_with new post (x # pre) acc = Inr acc'" using Inr by simp
      then show "\<exists>pre rest acc'. x # xs = pre @ k # rest \<and> parse_field_name k = None
        \<and> insert_keys_with new post pre acc = Inr acc'" by blast
    next
      assume "\<exists>pre rest acc'. x # xs = pre @ k # rest \<and> parse_field_name k = None
        \<and> insert_keys_with new post pre acc = Inr acc'"
      then obtain pre rest acc' where p: "x # xs = pre @ k # rest" "parse_field_name k = None"
        "insert_keys_with new post pre acc = Inr acc'" by blast
      show "\<exists>pre rest acc'. xs = pre @ k # rest \<and> parse_field_name k = None
        \<and> insert_keys_with new post pre acc1 = Inr acc'"
      proof (cases pre)
        case Nil
        with p nn show ?thesis by simp
      next
        case (Cons y ys)
        with p(1) have "y = x" "xs = ys @ k # rest" by simp_all
        moreover from Cons p(3) Inr \<open>y = x\<close> have "insert_keys_with new post ys acc1 = Inr acc'" by simp
        ultimately show ?thesis using p(2) by blast
      qed
    qed
    finally show ?thesis .
  qed
qed

lemma int_keys_error: "int_keys ks = Inl e \<Longrightarrow> \<exists>k. e = ValueError k"
  by (induction ks arbitrary: e) (auto split: option.splits sum.splits)

lemma collect_items_error: "collect_items d is = Inl e \<Longrightarrow> \<exists>k. e = KeyError k"
  by (induction "is" arbitrary: e) (auto split: option.splits sum.splits)

lemma convert_path_error:
  "convert_path n p result = Inl e \<Longrightarrow> (\<exists>k. e = KeyError k) \<or> (\<exists>k. e = ValueError k) \<or> (\<exists>k. e = AttributeError k)"
  by (auto simp: convert_path_def dpath_get_def to_array_def
      split: sum.splits option.splits obj.splits dest: int_keys_error collect_items_error)

lemma convert_paths_error:
  "convert_paths n ps result = Inl e \<Longrightarrow> (\<exists>k. e = KeyError k) \<or> (\<exists>k. e = ValueError k) \<or> (\<exists>k. e = AttributeError k)"
proof (induction ps arbitrary: n result)
  case Nil
  then show ?case by simp
next
  case (Cons p ps)
  then show ?case
    by (cases "convert_path n p result") (auto dest: convert_path_error)
qed









subsection \<open>The value stored for a key\<close>



subsection \<open>Field names that do not match\<close>

text \<open>
  Claim C7 does not hold as stated: a key that does not match the pattern is only found
  when the loop reaches it, and the loop stops before that when the insertion of an
  earlier key fails inside \<^verbatim>\<open>dpath\<close>. Here \<^verbatim>\<open>a[b]\<close> leads into the string stored
  for \<^verbatim>\<open>a\<close>, and the non-matching key \<^verbatim>\<open>!!\<close> is never looked at.
\<close>

theorem unpack_post_field_name_error_counterexample:
  "parse_field_name ''!!'' = None
   \<and> ''!!'' \<in> set (keys [(''a'', ''1''), (''a[b]'', ''2''), (''!!'', ''3'')])
   \<and> unpack_post id [(''a'', ''1''), (''a[b]'', ''2''), (''!!'', ''3'')] = Inl DpathError"
  by (simp add: unpack_post_with_def keys_def insert_key_with_def parse_field_name_def parse_selectors.simps
      char_class_defs dpath_new_def split_path_def get_list_or_value_def getlist_def starts_with_digit_def)

text \<open>
  Claim C7, amended. \<open>unpack_post\<close> fails with the field-name error for \<open>k\<close> exactly
  when \<open>k\<close> is a key that does not match the pattern and \<^verbatim>\<open>dpath.util.new\<close> has
  raised for none of the keys before it, in the order of iteration. This holds whatever
  \<^verbatim>\<open>dpath.util.new\<close> does, and in whatever order the recorded paths are iterated. In
  particular the error is never raised for a key that matches.
\<close>

theorem unpack_post_field_name_error:
  "unpack_post_with new iter_order post = Inl (FieldNameNotValid k) \<longleftrightarrow>
     (\<exists>pre rest acc. keys post = pre @ k # rest \<and> parse_field_name k = None
        \<and> insert_keys_with new post pre (PDict [], []) = Inr acc)"
proof -
  have "unpack_post_with new iter_order post = Inl (FieldNameNotValid k) \<longleftrightarrow>
      insert_keys_with new post (keys post) (PDict [], []) = Inl (FieldNameNotValid k)"
    by (auto simp: unpack_post_with_def split: sum.splits prod.splits dest: convert_paths_error)
  then show ?thesis by (simp add: insert_keys_with_field_name_error)
qed

theorem unpack_post_field_name_error_witness:
  "unpack_post id [(''a'', ''1''), (''!!'', ''3'')] = Inl (FieldNameNotValid ''!!'')"
proof -
  have "keys [(''a'', ''1''), (''!!'', ''3'')] = [''a''] @ ''!!'' # []"
    by (simp add: keys_def)
  moreover have "parse_field_name ''!!'' = None"
    by (simp add: parse_field_name_def char_class_defs)
  moreover have "insert_keys [(''a'', ''1''), (''!!'', ''3'')] [''a''] (PDict [], [])
      = Inr (PDict [(''a'', PStr ''1'')], [])"
    by (simp add: insert_key_with_def parse_a dpath_new_def split_path_def get_list_or_value_def
        getlist_def)
  ultimately show ?thesis
    using unpack_post_field_name_error [of dpath_new id "[(''a'', ''1''), (''!!'', ''3'')]" "''!!''"]
    by blast
qed

subsection \<open>Examples\<close>

text \<open>The definitions that evaluate \<open>unpack_post\<close> on a given input.\<close>

lemmas unpack_post_eval =
  unpack_post_with_def keys_def insert_key_with_def parse_field_name_def parse_selectors.simps
  char_class_defs dpath_new_def split_path_def get_list_or_value_def getlist_def
  starts_with_digit_def set_add_def convert_path_def dpath_get_def dpath_set_def to_array_def
  py_int_def strip_def is_space_def parse_nat_def digit_val_def py_str_def str_nat.simps
  digit_char_def list_index_def all_digits_def set_at_def Let_def

text \<open>The example of the specification, a sparse numeric level, and a forced array.\<close>

lemma unpack_post_spec_example:
  "unpack_post id [(''name'', ''Alice''), (''tags[]'', ''a''), (''tags[]'', ''b''),
      (''row[0][id]'', ''x''), (''row[1][id]'', ''y'')]
   = Inr (PDict [(''name'', PStr ''Alice''), (''tags'', PList [PStr ''a'', PStr ''b'']),
        (''row'', PList [PDict [(''id'', PStr ''x'')], PDict [(''id'', PStr ''y'')]])])"
  by (simp add: unpack_post_eval)

lemma unpack_post_sparse:
  "unpack_post id [(''r[2]'', ''a''), (''r[0]'', ''b''), (''r[10]'', ''c'')]
   = Inr (PDict [(''r'', PList [PStr ''b'', PStr ''a'', PStr ''c''])])"
  by (simp add: unpack_post_eval)

lemma unpack_post_forced:
  "unpack_post id [(''tags[]'', ''a'')] = Inr (PDict [(''tags'', PList [PStr ''a''])])"
  by (simp add: unpack_post_eval)

text \<open>A name that occurs twice is stored once, with both values.\<close>

lemma unpack_post_merged:
  "unpack_post id [(''tags[]'', ''a''), (''b'', ''1''), (''b'', ''2''), (''c'', ''3'')]
   = Inr (PDict [(''tags'', PList [PStr ''a'']), (''b'', PList [PStr ''1'', PStr ''2'']),
        (''c'', PStr ''3'')])"
  by (simp add: unpack_post_eval)

text \<open>
  Two inputs on which \<^verbatim>\<open>dpath.util.new\<close> raises. In the first the component
  \<^verbatim>\<open>person\<close> is missing, the first walk stays at the top dictionary, finds the string
  stored for \<^verbatim>\<open>name\<close> there and cannot enter it. In the second the list stored for
  \<^verbatim>\<open>b\<close> is given the index \<^verbatim>\<open>-1\<close>, which does not consist of digits.
\<close>

lemma unpack_post_missing_component:
  "unpack_post id [(''name'', ''Alice''), (''person[name][first]'', ''Bob'')] = Inl DpathError"
  by (simp add: unpack_post_eval)

lemma unpack_post_negative_index:
  "unpack_post id [(''b[]'', ''x''), (''b[-1]'', ''z'')] = Inl DpathError"
  by (simp add: unpack_post_eval)

text \<open>
  An index that consists of digits is accepted and the list padded up to it; the level
  \<^verbatim>\<open>b\<close> is recorded for conversion all the same, and a list has no \<^verbatim>\<open>keys\<close>.
\<close>

lemma unpack_post_list_index:
  "insert_keys [(''b[]'', ''x''), (''b[2]'', ''z'')] [''b[]'', ''b[2]''] (PDict [], [])
     = Inr (PDict [(''b'', PList [PStr ''x'', PNone, PStr ''z''])], [''b''])
   \<and> unpack_post id [(''b[]'', ''x''), (''b[2]'', ''z'')] = Inl (AttributeError ''keys'')"
  by (simp add: unpack_post_eval numeral_2_eq_2)

text \<open>
  One object in two places. The keys \<^verbatim>\<open>-0\<close> and \<^verbatim>\<open>0\<close> of the level \<^verbatim>\<open>a\<close> both
  read back as \<^verbatim>\<open>d['0']\<close>, so the array holds the dictionary stored for \<^verbatim>\<open>0\<close>
  twice (and the value of \<^verbatim>\<open>-0\<close> is lost). The conversion of \<^verbatim>\<open>a/0/x\<close> that comes
  after it assigns to that one dictionary and shows in both elements. In the second example
  the dictionary under \<^verbatim>\<open>a/0/0\<close> is held by the array made for \<^verbatim>\<open>a/0\<close> and by
  the dictionary that this array replaced in one place only.
\<close>

lemma unpack_post_shared:
  "unpack_post id [(''a[-0]'', ''p''), (''a[0][x][2]'', ''q'')]
   = Inr (PDict [(''a'', PList [PDict [(''x'', PList [PStr ''q''])],
        PDict [(''x'', PList [PStr ''q''])]])])"
  by (simp add: unpack_post_eval)

lemma unpack_post_shared_nested:
  "unpack_post id [(''a[0][0][x][3]'', ''v''), (''a[-0]'', ''s'')]
   = Inr (PDict [(''a'', PList [PList [PDict [(''x'', PList [PStr ''v''])]],
        PDict [(''0'', PDict [(''x'', PList [PStr ''v''])])]])])"
  by (simp add: unpack_post_eval)

subsection \<open>Numeric keys that are not canonical numerals\<close>

text \<open>
  When the conversion of a dictionary succeeds, the array lists the values in ascending
  order of the integer values of the keys, one element per key and nothing in between: a
  gap in the indices is closed, not padded.
\<close>

lemma collect_items_values:
  "collect_items d ns = Inr arr \<Longrightarrow> map Some arr = map (\<lambda>n. map_of d (py_str n)) ns"
  by (induction ns arbitrary: arr) (auto split: option.splits sum.splits)

lemma int_keys_length: "int_keys ks = Inr ns \<Longrightarrow> length ns = length ks"
  by (induction ks arbitrary: ns) (auto split: option.splits sum.splits)

lemma to_array_sorted:
  assumes "to_array (ODict j kvs) = Inr arr"
  shows "\<exists>ns. int_keys (map fst kvs) = Inr ns \<and> length arr = length kvs
           \<and> map Some arr = map (\<lambda>n. map_of kvs (py_str n)) (sort ns)"
proof -
  from assms obtain ns where ns: "int_keys (map fst kvs) = Inr ns"
      "collect_items kvs (sort ns) = Inr arr"
    by (auto simp: to_array_def split: sum.splits)
  from collect_items_values [OF ns(2)]
  have v: "map Some arr = map (\<lambda>n. map_of kvs (py_str n)) (sort ns)" .
  then have "length arr = length (sort ns)" by (metis length_map)
  with int_keys_length [OF ns(1)] have "length arr = length kvs" by simp
  with ns(1) v show ?thesis by blast
qed

text \<open>
  Claim C5 fails on the code. The level \<^verbatim>\<open>r\<close> of the input \<^verbatim>\<open>r[01]=a\<close> has the
  single bracket key \<^verbatim>\<open>01\<close>, which consists of digits only, so the level is recorded
  for conversion. The conversion reads the keys back as \<^verbatim>\<open>d[str(int(k))]\<close>, that is
  \<^verbatim>\<open>d['1']\<close>, a key the dictionary does not have, and \<open>unpack_post\<close> ends with
  \<^verbatim>\<open>KeyError\<close> instead of the array \<^verbatim>\<open>['a']\<close>.
\<close>

theorem unpack_post_leading_zero:
  "list_all is_digit ''01''
   \<and> unpack_post id [(''r[01]'', ''a'')] = Inl (KeyError ''1'')"
  by (simp add: unpack_post_eval)

subsection \<open>Numeric and other keys at one level\<close>

text \<open>
  Predicates for the proof. \<open>has_key_or_flat i v\<close>: the value is a dictionary with the
  key \<open>i\<close>, or no dictionary at all. \<open>level_under path i v\<close>: following \<open>path\<close> from
  \<open>v\<close> through dictionaries leads to such a value, unless a value that is no dictionary
  is met on the way. \<open>is_flat\<close> and \<open>is_dict\<close> tell dictionaries from other values.
\<close>

definition has_key_or_flat :: "string \<Rightarrow> pyval \<Rightarrow> bool" where
  "has_key_or_flat i v = (case v of PDict d \<Rightarrow> map_of d i \<noteq> None | _ \<Rightarrow> True)"

fun level_under :: "string list \<Rightarrow> string \<Rightarrow> pyval \<Rightarrow> bool" where
  "level_under [] i v = has_key_or_flat i v"
| "level_under (s # path) i (PDict d) =
     (case map_of d s of None \<Rightarrow> False | Some c \<Rightarrow> level_under path i c)"
| "level_under (s # path) i v = True"

definition is_flat :: "pyval \<Rightarrow> bool" where
  "is_flat v = (case v of PDict d \<Rightarrow> False | _ \<Rightarrow> True)"

definition is_dict :: "pyval \<Rightarrow> bool" where
  "is_dict v = (case v of PDict d \<Rightarrow> True | _ \<Rightarrow> False)"

lemma map_of_dict_set: "map_of (dict_set k v d) k' = (if k' = k then Some v else map_of d k')"
  by (induction d) auto

lemma level_under_flat: "is_flat v \<Longrightarrow> level_under path i v"
  by (cases path; cases v) (auto simp: is_flat_def has_key_or_flat_def)

lemma new_at_flat: "is_flat c \<Longrightarrow> new_at c ks v = Some c' \<Longrightarrow> is_flat v \<Longrightarrow> is_flat c'"
proof (cases ks)
  case Nil
  then show "is_flat c \<Longrightarrow> new_at c ks v = Some c' \<Longrightarrow> is_flat v \<Longrightarrow> is_flat c'" by simp
next
  case (Cons k ks')
  then show "is_flat c \<Longrightarrow> new_at c ks v = Some c' \<Longrightarrow> is_flat v \<Longrightarrow> is_flat c'"
    by (cases c; cases ks')
      (auto simp: is_flat_def split: option.splits if_splits)
qed

lemma new_at_dict_cases:
  assumes "new_at (PDict d) (k # ks) v = Some c'"
  obtains n where "c' = PDict (dict_set k n d)"
    and "ks = [] \<Longrightarrow> n = v"
    and "\<And>c. ks \<noteq> [] \<Longrightarrow> map_of d k = Some c \<Longrightarrow> new_at c ks v = Some n"
    and "ks \<noteq> [] \<Longrightarrow> map_of d k = None \<Longrightarrow> fresh_dict d ks v = Some n"
  using assms by (cases ks; cases "map_of d k") auto

lemma new_at_keeps:
  assumes "is_flat v"
  shows "ks \<noteq> [] \<Longrightarrow> level_under path i c \<Longrightarrow> new_at c ks v = Some c' \<Longrightarrow> level_under path i c'"
proof (induction path arbitrary: c ks c')
  case Nil
  from Nil(1) obtain k ks' where ks: "ks = k # ks'" by (cases ks) auto
  show ?case
  proof (cases c)
    case (PDict d)
    from Nil(3) [unfolded ks PDict] obtain n where "c' = PDict (dict_set k n d)"
      by (rule new_at_dict_cases)
    with Nil(2) PDict show ?thesis by (auto simp: has_key_or_flat_def map_of_dict_set)
  next
    case (PList xs)
    then have "is_flat c" by (simp add: is_flat_def)
    from new_at_flat [OF this Nil(3) assms] show ?thesis by (rule level_under_flat)
  qed (use Nil ks in auto)
next
  case (Cons s path)
  from Cons.prems(1) obtain k ks' where ks: "ks = k # ks'" by (cases ks) auto
  show ?case
  proof (cases c)
    case (PDict d)
    with Cons.prems(2) obtain ch where ch: "map_of d s = Some ch" "level_under path i ch"
      by (auto split: option.splits)
    from Cons.prems(3) [unfolded ks PDict] obtain n where
      n: "c' = PDict (dict_set k n d)" "ks' = [] \<Longrightarrow> n = v"
         "\<And>c. ks' \<noteq> [] \<Longrightarrow> map_of d k = Some c \<Longrightarrow> new_at c ks' v = Some n"
      by (rule new_at_dict_cases) blast
    show ?thesis
    proof (cases "k = s")
      case False
      with n(1) ch show ?thesis by (simp add: map_of_dict_set)
    next
      case True
      have "level_under path i n"
      proof (cases "ks' = []")
        case True
        with n(2) assms show ?thesis by (simp add: level_under_flat)
      next
        case False
        from n(3) [OF False] True ch(1) have "new_at ch ks' v = Some n" by simp
        with False ch(2) show ?thesis by (rule Cons.IH)
      qed
      with n(1) True show ?thesis by (simp add: map_of_dict_set)
    qed
  next
    case (PList xs)
    then have "is_flat c" by (simp add: is_flat_def)
    from new_at_flat [OF this Cons.prems(3) assms] show ?thesis by (rule level_under_flat)
  qed (use Cons.prems ks in auto)
qed

lemma fresh_dict_cases:
  assumes "fresh_dict cur (k # ks) v = Some f"
  obtains n where "f = PDict [(k, n)]"
    and "ks = [] \<Longrightarrow> n = v"
    and "ks \<noteq> [] \<Longrightarrow> map_of cur k = None \<Longrightarrow> fresh_dict cur ks v = Some n"
    and "\<And>d. ks \<noteq> [] \<Longrightarrow> map_of cur k = Some (PDict d) \<Longrightarrow> fresh_dict d ks v = Some n"
    and "\<And>c. ks \<noteq> [] \<Longrightarrow> map_of cur k = Some c \<Longrightarrow> \<not> is_dict c \<Longrightarrow> is_flat n"
proof (cases ks)
  case Nil
  with assms that [of v] show ?thesis by simp
next
  case (Cons k' ks')
  show ?thesis
  proof (cases "map_of cur k")
    case None
    with assms Cons obtain n where "fresh_dict cur ks v = Some n" "f = PDict [(k, n)]" by auto
    with None Cons that [of n] show ?thesis by simp
  next
    case (Some c)
    show ?thesis
    proof (cases c)
      case (PDict d)
      with assms Cons Some obtain n where "fresh_dict d ks v = Some n" "f = PDict [(k, n)]" by auto
      with Some PDict Cons that [of n] show ?thesis by (simp add: is_dict_def)
    next
      case (PList xs)
      with assms Cons Some obtain n where "f = PDict [(k, n)]" "is_flat n"
        by (auto simp: is_flat_def split: list.splits if_splits option.splits)
      with Some PList Cons that [of n] show ?thesis by simp
    qed (use assms Cons Some in auto)
  qed
qed

lemma fresh_dict_makes:
  "fresh_dict cur (path @ i # ks) v = Some f \<Longrightarrow> level_under path i f"
proof (induction path arbitrary: cur f)
  case Nil
  then obtain n where "f = PDict [(i, n)]" by (auto elim: fresh_dict_cases)
  then show ?case by (simp add: has_key_or_flat_def)
next
  case (Cons s path)
  from Cons.prems have p: "fresh_dict cur (s # (path @ i # ks)) v = Some f" by simp
  from p obtain n where n: "f = PDict [(s, n)]"
    "map_of cur s = None \<Longrightarrow> fresh_dict cur (path @ i # ks) v = Some n"
    "\<And>d. map_of cur s = Some (PDict d) \<Longrightarrow> fresh_dict d (path @ i # ks) v = Some n"
    "\<And>c. map_of cur s = Some c \<Longrightarrow> \<not> is_dict c \<Longrightarrow> is_flat n"
    by (rule fresh_dict_cases) auto
  have "level_under path i n"
  proof (cases "map_of cur s")
    case None
    from n(2) [OF None] show ?thesis by (rule Cons.IH)
  next
    case (Some c)
    show ?thesis
    proof (cases c)
      case (PDict d)
      from n(3) [OF Some [unfolded PDict]] show ?thesis by (rule Cons.IH)
    qed (use n(4) [OF Some] in \<open>auto simp: is_dict_def level_under_flat\<close>)
  qed
  with n(1) show ?case by simp
qed

lemma new_at_makes:
  assumes "py_int i = None"
  shows "new_at c (path @ i # ks) v = Some c' \<Longrightarrow> level_under path i c'"
proof (induction path arbitrary: c c')
  case Nil
  show ?case
  proof (cases c)
    case (PDict d)
    from Nil [unfolded PDict] obtain n where "c' = PDict (dict_set i n d)"
      by (auto elim: new_at_dict_cases)
    then show ?thesis by (simp add: has_key_or_flat_def map_of_dict_set)
  next
    case (PList xs)
    with Nil assms show ?thesis by (cases ks) (auto split: if_splits)
  qed (use Nil in auto)
next
  case (Cons s path)
  show ?case
  proof (cases c)
    case (PDict d)
    from Cons.prems PDict have p: "new_at (PDict d) (s # (path @ i # ks)) v = Some c'" by simp
    from p obtain n where n: "c' = PDict (dict_set s n d)"
      "\<And>c. map_of d s = Some c \<Longrightarrow> new_at c (path @ i # ks) v = Some n"
      "map_of d s = None \<Longrightarrow> fresh_dict d (path @ i # ks) v = Some n"
      by (rule new_at_dict_cases) auto
    have "level_under path i n"
    proof (cases "map_of d s")
      case None
      from n(3) [OF None] show ?thesis by (rule fresh_dict_makes)
    next
      case (Some c0)
      from n(2) [OF Some] show ?thesis by (rule Cons.IH)
    qed
    with n(1) show ?thesis by (simp add: map_of_dict_set)
  next
    case (PList xs)
    then have "is_flat c" by (simp add: is_flat_def)
    moreover from Cons.prems PList have "is_flat c'"
      by (cases "path @ i # ks") (auto simp: is_flat_def split: option.splits if_splits)
    ultimately show ?thesis by (simp add: level_under_flat)
  qed (use Cons.prems in auto)
qed

lemma value_of_with_ids:
  "value_of (with_ids p v) = v"
  "map (map_prod id value_of) (items_with_ids p d) = d"
  "map value_of (elems_with_ids p n xs) = xs"
  by (induction p v and p d and p n xs rule: with_ids_items_with_ids_elems_with_ids.induct)
    (simp_all add: id_def)

lemma map_of_items: "map_of (map (map_prod id f) d) k = map_option f (map_of d k)"
  by (induction d) auto

lemma assign_keeps:
  assumes "is_flat (value_of v)"
  shows "level_under path i (value_of c) \<Longrightarrow> level_under path i (value_of (assign c parent k v))"
proof (induction path arbitrary: c)
  case Nil
  then show ?case
    by (cases c) (auto simp: has_key_or_flat_def map_of_items map_of_dict_set Let_def)
next
  case (Cons s path)
  show ?case
  proof (cases c)
    case (ODict j d)
    with Cons.prems obtain ch where ch: "map_of d s = Some ch" "level_under path i (value_of ch)"
      by (auto simp: map_of_items split: option.splits)
    from ch(2) have "level_under path i (value_of (assign ch parent k v))" by (rule Cons.IH)
    moreover from assms have "level_under path i (value_of v)" by (rule level_under_flat)
    ultimately show ?thesis using ODict ch(1)
      by (simp add: map_of_items map_of_dict_set Let_def)
  qed (simp_all add: Let_def)
qed

lemma set_at_keeps:
  assumes "level_under path i (value_of c)"
  shows "level_under path i (value_of (set_at c ks (OList a arr)))"
proof -
  have "is_flat (value_of (OList a arr))" by (simp add: is_flat_def)
  from assign_keeps [OF this assms] assms show ?thesis
    by (simp add: set_at_def split: option.splits obj.splits)
qed

lemma digit_char_is_digit: "n < 10 \<Longrightarrow> is_digit (digit_char n)"
  unfolding is_digit_def digit_char_def by (rule nth_mem) simp

lemma str_nat_starts_with_digit: "starts_with_digit (str_nat n)"
proof (induction n rule: str_nat.induct)
  case (1 n)
  show ?case
  proof (cases "n < 10")
    case True
    then show ?thesis by (simp add: str_nat.simps [of n] starts_with_digit_def digit_char_is_digit)
  next
    case False
    with "1.IH" have "starts_with_digit (str_nat (n div 10))" by simp
    with False show ?thesis
      by (cases "str_nat (n div 10)") (auto simp: str_nat.simps [of n] starts_with_digit_def)
  qed
qed

lemma list_index_not_digit: "\<not> starts_with_digit s \<Longrightarrow> list_index xs s = None"
  using str_nat_starts_with_digit
  by (auto simp: list_index_def find_None_iff py_str_def)

lemma get_at_level:
  assumes "\<forall>s \<in> set path. \<not> starts_with_digit s"
  shows "level_under path i (value_of c) \<Longrightarrow>
     get_at c path = None \<or> (\<exists>c'. get_at c path = Some c' \<and> has_key_or_flat i (value_of c'))"
  using assms
proof (induction path arbitrary: c)
  case Nil
  then show ?case by simp
next
  case (Cons s path)
  show ?case
  proof (cases c)
    case (ODict j d)
    with Cons.prems(1) obtain ch where ch: "map_of d s = Some ch" "level_under path i (value_of ch)"
      by (auto simp: map_of_items split: option.splits)
    from Cons.IH [OF ch(2)] Cons.prems(2) ODict ch(1) show ?thesis by simp
  next
    case (OList j xs)
    from Cons.prems(2) have "list_index xs s = None" by (simp add: list_index_not_digit)
    with OList show ?thesis by simp
  qed simp_all
qed

lemma int_keys_fails: "k \<in> set ks \<Longrightarrow> py_int k = None \<Longrightarrow> \<exists>e. int_keys ks = Inl e"
  by (induction ks) (auto split: option.splits sum.splits)

lemma to_array_fails:
  assumes "py_int i = None" "has_key_or_flat i (value_of v)"
  shows "\<exists>e. to_array v = Inl e"
proof (cases v)
  case (ODict j d)
  with assms(2) have "map_of d i \<noteq> None"
    by (simp add: has_key_or_flat_def map_of_items)
  then have "i \<in> set (map fst d)" by (simp add: map_of_eq_None_iff)
  from int_keys_fails [OF this assms(1)] ODict show ?thesis
    by (auto simp: to_array_def)
qed (simp_all add: to_array_def)

lemma split_on_nonempty: "split_on sep s \<noteq> []"
  by (induction s) (auto split: list.splits)

lemma split_path_nonempty: "split_path p \<noteq> []"
  by (simp add: split_path_def split_on_nonempty)

lemma convert_path_keeps:
  assumes "level_under path i (value_of result)" "convert_path n p result = Inr r'"
  shows "level_under path i (value_of r')"
proof -
  from assms(2) obtain arr where "r' = set_at result (split_path p) (OList (Array n) arr)"
    by (auto simp: convert_path_def dpath_set_def split: sum.splits)
  with assms(1) show ?thesis by (simp add: set_at_keeps)
qed

lemma new_at_is_dict: "is_dict c \<Longrightarrow> new_at c (k # ks) v = Some c' \<Longrightarrow> is_dict c'"
  by (cases c; cases ks) (auto simp: is_dict_def split: option.splits)

lemma set_at_is_dict: "is_dict (value_of c) \<Longrightarrow> is_dict (value_of (set_at c ks v))"
  by (cases c) (auto simp: is_dict_def set_at_def Let_def split: option.splits obj.splits)

lemma convert_path_is_dict:
  assumes "is_dict (value_of result)" "convert_path n p result = Inr r'"
  shows "is_dict (value_of r')"
proof -
  from assms(2) obtain arr where "r' = set_at result (split_path p) (OList (Array n) arr)"
    by (auto simp: convert_path_def dpath_set_def split: sum.splits)
  with assms(1) show ?thesis by (simp add: set_at_is_dict)
qed

lemma convert_path_fails:
  assumes "level_under (obj # pre) i (value_of result)" "is_dict (value_of result)"
    and "py_int i = None"
    and "\<forall>s \<in> set pre. \<not> starts_with_digit s" "split_path p = obj # pre"
  shows "\<exists>e. convert_path n p result = Inl e"
proof -
  from assms(2) obtain j d where d: "result = ODict j d"
    by (cases result) (auto simp: is_dict_def)
  with assms(1) obtain c where c: "map_of d obj = Some c" "level_under pre i (value_of c)"
    by (auto simp: map_of_items split: option.splits)
  from get_at_level [OF assms(4) c(2)]
  show ?thesis
  proof
    assume "get_at c pre = None"
    with d c(1) assms(5) show ?thesis by (simp add: convert_path_def dpath_get_def)
  next
    assume "\<exists>c'. get_at c pre = Some c' \<and> has_key_or_flat i (value_of c')"
    then obtain c' where c': "get_at c pre = Some c'" "has_key_or_flat i (value_of c')" by blast
    from to_array_fails [OF assms(3) c'(2)] obtain e where "to_array c' = Inl e" ..
    with d c(1) c'(1) assms(5) show ?thesis by (simp add: convert_path_def dpath_get_def)
  qed
qed

lemma convert_paths_fail:
  assumes "py_int i = None" "\<forall>s \<in> set pre. \<not> starts_with_digit s" "split_path p = obj # pre"
  shows "level_under (obj # pre) i (value_of result) \<Longrightarrow> is_dict (value_of result) \<Longrightarrow> p \<in> set ps
     \<Longrightarrow> \<exists>e. convert_paths n ps result = Inl e"
proof (induction ps arbitrary: n result)
  case Nil
  then show ?case by simp
next
  case (Cons q ps)
  show ?case
  proof (cases "convert_path n q result")
    case (Inl e)
    then show ?thesis by simp
  next
    case (Inr r')
    have l: "level_under (obj # pre) i (value_of r')"
      using Cons.prems(1) Inr by (rule convert_path_keeps)
    have d: "is_dict (value_of r')" using Cons.prems(2) Inr by (rule convert_path_is_dict)
    have "q \<noteq> p"
      using Inr convert_path_fails [OF Cons.prems(1,2) assms, of n] by auto
    with Cons.prems(3) have "p \<in> set ps" by simp
    from Cons.IH [OF l d this] Inr show ?thesis by simp
  qed
qed

lemma add_selectors_mono: "set paths \<subseteq> set (snd (add_selectors sels path paths))"
proof (induction sels arbitrary: path paths)
  case Nil
  then show ?case by simp
next
  case (Cons idx sels)
  have "set paths \<subseteq> set (if starts_with_digit idx then set_add path paths else paths)"
    by (auto simp: set_add_def)
  also have "\<dots> \<subseteq> set (snd (add_selectors sels (path @ ''/'' @ idx)
       (if starts_with_digit idx then set_add path paths else paths)))"
    by (rule Cons.IH)
  finally show ?case by simp
qed

lemma add_selectors_records:
  "starts_with_digit idx \<Longrightarrow> path \<in> set (snd (add_selectors (idx # sels) path paths))"
proof -
  assume "starts_with_digit idx"
  then have "path \<in> set (if starts_with_digit idx then set_add path paths else paths)"
    by (simp add: set_add_def)
  then show ?thesis using add_selectors_mono by fastforce
qed

lemma split_on_joined:
  assumes "sep \<notin> set a" "\<forall>i \<in> set sels. sep \<notin> set i"
  shows "split_on sep (a @ concat (map ((#) sep) sels)) = a # sels"
  using assms
proof (induction sels arbitrary: a)
  case Nil
  then show ?case by (simp add: split_on_no_sep)
next
  case (Cons i sels)
  then show ?case by (simp add: split_on_append)
qed

lemma parse_selectors_name_chars:
  "parse_selectors s = Some (sels, tb) \<Longrightarrow> \<forall>i \<in> set sels. list_all is_name_char i"
proof (induction s arbitrary: sels tb rule: parse_selectors.induct)
  case (1 s)
  show ?case
  proof (cases "s = [] \<or> s = [CHR 0x0A]")
    case True
    with "1.prems" show ?thesis by (simp add: parse_selectors.simps)
  next
    case False
    let ?idx = "takeWhile is_name_char (tl s)"
    let ?rest = "dropWhile is_name_char (tl s)"
    from False "1.prems" have h: "hd s = CHR ''[''" "?rest \<noteq> []" "hd ?rest = CHR '']''"
      by (auto simp: parse_selectors.simps [of s] Let_def split: if_splits)
    show ?thesis
    proof (cases "?idx = []")
      case True
      with False h "1.prems" show ?thesis
        by (auto simp: parse_selectors.simps [of s] Let_def split: if_splits)
    next
      case idx: False
      with False h "1.prems" obtain sels' where
        p: "parse_selectors (tl ?rest) = Some (sels', tb)" "sels = ?idx # sels'"
        by (auto simp: parse_selectors.simps [of s] Let_def split: if_splits)
      have "\<forall>i \<in> set sels'. list_all is_name_char i"
        using "1.IH" [OF False _ refl refl _ idx p(1)] h by auto
      with p(2) show ?thesis by (simp add: takeWhile_all)
    qed
  qed
qed

lemma parse_field_name_sels:
  "parse_field_name k = Some (obj, sels, tb) \<Longrightarrow> \<forall>i \<in> set sels. list_all is_name_char i"
  by (auto simp: parse_field_name_def Let_def split: if_splits dest!: parse_selectors_name_chars)

lemma split_path_joined:
  assumes "parse_field_name k = Some (obj, sels, tb)"
  shows "split_path (fst (add_selectors sels obj paths)) = obj # sels"
proof -
  from assms have o: "obj \<noteq> []" "list_all is_name_char obj" by (simp_all add: parse_field_name_obj)
  then have n: "CHR ''/'' \<notin> set obj" by (simp add: name_chars_no_slash)
  from parse_field_name_sels [OF assms] have s: "\<forall>i \<in> set sels. CHR ''/'' \<notin> set i"
    by (simp add: name_chars_no_slash)
  from o n have "dropWhile (\<lambda>c. c = CHR ''/'') (obj @ concat (map ((#) (CHR ''/'')) sels))
      = obj @ concat (map ((#) (CHR ''/'')) sels)"
    by (cases obj) auto
  then show ?thesis
    using n s by (simp add: split_path_def add_selectors_path split_on_joined)
qed

lemma insert_key_new_at:
  assumes "parse_field_name k = Some (obj, sels, tb)" "insert_key post k acc = Inr acc'"
  shows "new_at (fst acc) (obj # sels) (get_list_or_value tb post k) = Some (fst acc')
       \<and> snd acc' = snd (add_selectors sels obj (snd acc))"
  using assms split_path_joined [OF assms(1), of "snd acc"]
  by (auto simp: insert_key_with_def dpath_new_def split: prod.splits option.splits)

lemma add_selectors_records_prefix:
  "starts_with_digit idx \<Longrightarrow>
     path @ concat (map ((#) (CHR ''/'')) pre)
       \<in> set (snd (add_selectors (pre @ idx # sels) path paths))"
proof (induction pre arbitrary: path paths)
  case Nil
  then show ?case using add_selectors_records by simp
next
  case (Cons s pre)
  from Cons.IH [OF Cons.prems, of "path @ ''/'' @ s"] show ?case by simp
qed

lemma split_path_prefix:
  assumes "parse_field_name k = Some (obj, pre @ sels, tb)"
  shows "split_path (obj @ concat (map ((#) (CHR ''/'')) pre)) = obj # pre"
proof -
  from assms have o: "obj \<noteq> []" "list_all is_name_char obj" by (simp_all add: parse_field_name_obj)
  then have n: "CHR ''/'' \<notin> set obj" by (simp add: name_chars_no_slash)
  from parse_field_name_sels [OF assms] have s: "\<forall>i \<in> set pre. CHR ''/'' \<notin> set i"
    by (simp add: name_chars_no_slash)
  from o n have "dropWhile (\<lambda>c. c = CHR ''/'') (obj @ concat (map ((#) (CHR ''/'')) pre))
      = obj @ concat (map ((#) (CHR ''/'')) pre)"
    by (cases obj) auto
  then show ?thesis
    using n s by (simp add: split_path_def split_on_joined)
qed

lemma flat_value: "is_flat (get_list_or_value tb post k)"
  by (simp add: get_list_or_value_def is_flat_def Let_def)

lemma insert_key_is_dict:
  assumes "is_dict (fst acc)" "insert_key post k acc = Inr acc'"
  shows "is_dict (fst acc')"
proof -
  from assms(2) obtain obj sels tb where p: "parse_field_name k = Some (obj, sels, tb)"
    by (auto simp: insert_key_with_def split: option.splits)
  from insert_key_new_at [OF p assms(2)] assms(1) show ?thesis
    using new_at_is_dict by blast
qed

lemma insert_key_keeps:
  assumes "level_under path i (fst acc)" "insert_key post k acc = Inr acc'"
  shows "level_under path i (fst acc')"
proof -
  from assms(2) obtain obj' sels tb where p: "parse_field_name k = Some (obj', sels, tb)"
    by (auto simp: insert_key_with_def split: option.splits)
  from insert_key_new_at [OF p assms(2)]
  have "new_at (fst acc) (obj' # sels) (get_list_or_value tb post k) = Some (fst acc')" ..
  with assms(1) show ?thesis
    using new_at_keeps [OF flat_value] by blast
qed

lemma insert_key_paths_mono:
  assumes "insert_key post k acc = Inr acc'"
  shows "set (snd acc) \<subseteq> set (snd acc')"
proof -
  from assms obtain obj sels tb where p: "parse_field_name k = Some (obj, sels, tb)"
    by (auto simp: insert_key_with_def split: option.splits)
  from insert_key_new_at [OF p assms] show ?thesis
    using add_selectors_mono by simp
qed

lemma insert_keys_is_dict:
  "is_dict (fst acc) \<Longrightarrow> insert_keys post ks acc = Inr acc' \<Longrightarrow> is_dict (fst acc')"
  by (induction ks arbitrary: acc) (auto split: sum.splits dest: insert_key_is_dict)

lemma insert_keys_keeps:
  "level_under path i (fst acc) \<Longrightarrow> insert_keys post ks acc = Inr acc'
     \<Longrightarrow> level_under path i (fst acc')"
  by (induction ks arbitrary: acc) (auto split: sum.splits dest: insert_key_keeps)

lemma insert_keys_paths_mono:
  "insert_keys post ks acc = Inr acc' \<Longrightarrow> set (snd acc) \<subseteq> set (snd acc')"
proof (induction ks arbitrary: acc)
  case Nil
  then show ?case by simp
next
  case (Cons k ks)
  then obtain acc1 where a: "insert_key post k acc = Inr acc1" "insert_keys post ks acc1 = Inr acc'"
    by (auto split: sum.splits)
  from insert_key_paths_mono [OF a(1)] Cons.IH [OF a(2)] show ?case by blast
qed

lemma insert_keys_makes:
  assumes "parse_field_name k2 = Some (obj, pre @ i # s2, tb2)" "py_int i = None"
  shows "k2 \<in> set ks \<Longrightarrow> insert_keys post ks acc = Inr acc'
     \<Longrightarrow> level_under (obj # pre) i (fst acc')"
proof (induction ks arbitrary: acc)
  case Nil
  then show ?case by simp
next
  case (Cons k ks)
  from Cons.prems(2) obtain acc1 where
    a: "insert_key post k acc = Inr acc1" "insert_keys post ks acc1 = Inr acc'"
    by (auto split: sum.splits)
  show ?case
  proof (cases "k = k2")
    case True
    from insert_key_new_at [OF assms(1) a(1) [unfolded True]]
    have "new_at (fst acc) ((obj # pre) @ i # s2) (get_list_or_value tb2 post k2) = Some (fst acc1)"
      by simp
    with assms(2) have "level_under (obj # pre) i (fst acc1)" by (rule new_at_makes)
    then show ?thesis using a(2) by (rule insert_keys_keeps)
  next
    case False
    with Cons.prems(1) have "k2 \<in> set ks" by simp
    then show ?thesis using a(2) by (rule Cons.IH)
  qed
qed

lemma insert_keys_records:
  assumes "parse_field_name k1 = Some (obj, pre @ i1 # s1, tb1)" "starts_with_digit i1"
  shows "k1 \<in> set ks \<Longrightarrow> insert_keys post ks acc = Inr acc'
     \<Longrightarrow> obj @ concat (map ((#) (CHR ''/'')) pre) \<in> set (snd acc')"
proof (induction ks arbitrary: acc)
  case Nil
  then show ?case by simp
next
  case (Cons k ks)
  from Cons.prems(2) obtain acc1 where
    a: "insert_key post k acc = Inr acc1" "insert_keys post ks acc1 = Inr acc'"
    by (auto split: sum.splits)
  show ?case
  proof (cases "k = k1")
    case True
    from insert_key_new_at [OF assms(1) a(1) [unfolded True]]
    have "snd acc1 = snd (add_selectors (pre @ i1 # s1) obj (snd acc))" ..
    with assms(2) have "obj @ concat (map ((#) (CHR ''/'')) pre) \<in> set (snd acc1)"
      using add_selectors_records_prefix by metis
    with insert_keys_paths_mono [OF a(2)] show ?thesis by blast
  next
    case False
    with Cons.prems(1) have "k1 \<in> set ks" by simp
    then show ?thesis using a(2) by (rule Cons.IH)
  qed
qed

text \<open>
  Claim C8 does not hold as stated. The keys \<^verbatim>\<open>0\<close> and \<^verbatim>\<open>-1\<close> stand at the same
  level; the first consists of digits, the second does not, yet \<open>unpack_post\<close> returns a
  result: \<^verbatim>\<open>int('-1')\<close> succeeds and the value of \<^verbatim>\<open>-1\<close> is sorted before that
  of \<^verbatim>\<open>0\<close>. The code has no check for mixed keys and no error of its own for them.
\<close>

theorem unpack_post_mixed_keys_counterexample:
  "list_all is_digit ''0'' \<and> \<not> list_all is_digit ''-1''
   \<and> unpack_post id [(''obj[0]'', ''a''), (''obj[-1]'', ''b'')]
       = Inr (PDict [(''obj'', PList [PStr ''b'', PStr ''a''])])"
  by (simp add: unpack_post_eval)

text \<open>
  The example of the specification fails, with the \<^verbatim>\<open>ValueError\<close> of \<^verbatim>\<open>int('key')\<close>.
\<close>

lemma unpack_post_spec_example_mixed:
  "unpack_post id [(''obj[bad][0]'', ''x''), (''obj[bad][key]'', ''y'')] = Inl (ValueError ''key'')"
  by (simp add: unpack_post_eval)

text \<open>
  Claim C8, amended. Take a level of some path, that is a root name followed by bracket
  keys \<open>pre\<close>, none of which begins with a digit. If at this level one bracket key begins
  with a digit and another is not accepted by \<^verbatim>\<open>int\<close>, then \<open>unpack_post\<close> fails, in
  whatever order the recorded paths are iterated. (Below a bracket key that begins with a
  digit the conversion of the enclosing level can renumber the path, and the statement
  does not extend to such levels.)
\<close>

theorem unpack_post_mixed_keys_fail:
  assumes "k1 \<in> set (keys post)" "parse_field_name k1 = Some (obj, pre @ i1 # s1, tb1)"
      and "starts_with_digit i1"
      and "k2 \<in> set (keys post)" "parse_field_name k2 = Some (obj, pre @ i2 # s2, tb2)"
      and "py_int i2 = None"
      and "\<forall>s \<in> set pre. \<not> starts_with_digit s"
      and "\<And>ps. set (iter_order ps) = set ps"
  shows "\<exists>e. unpack_post iter_order post = Inl e"
proof (cases "insert_keys post (keys post) (PDict [], [])")
  case (Inl e)
  then show ?thesis by (simp add: unpack_post_with_def)
next
  case (Inr acc)
  let ?p = "obj @ concat (map ((#) (CHR ''/'')) pre)"
  have "is_dict (fst (PDict [], []))" by (simp add: is_dict_def)
  then have d: "is_dict (fst acc)" using Inr by (rule insert_keys_is_dict)
  have h: "level_under (obj # pre) i2 (fst acc)"
    using assms(5,6,4) Inr by (rule insert_keys_makes)
  have "?p \<in> set (snd acc)"
    using assms(2,3,1) Inr by (rule insert_keys_records)
  then have m: "?p \<in> set (iter_order (snd acc))" by (simp add: assms(8))
  have sp: "split_path ?p = obj # pre" using assms(2) by (rule split_path_prefix)
  from h d have "level_under (obj # pre) i2 (value_of (with_ids [] (fst acc)))"
      "is_dict (value_of (with_ids [] (fst acc)))"
    by (simp_all add: value_of_with_ids)
  from convert_paths_fail [OF assms(6,7) sp this m, of 0] Inr show ?thesis
    by (cases acc) (auto simp: unpack_post_with_def)
qed

theorem unpack_post_mixed_keys_fail_witness:
  "starts_with_digit ''0'' \<and> py_int ''key'' = None \<and> \<not> starts_with_digit ''bad''
   \<and> (\<exists>e. unpack_post id [(''obj[bad][0]'', ''x''), (''obj[bad][key]'', ''y'')] = Inl e)"
proof -
  have k: "''obj[bad][0]'' \<in> set (keys [(''obj[bad][0]'', ''x''), (''obj[bad][key]'', ''y'')])"
    "''obj[bad][key]'' \<in> set (keys [(''obj[bad][0]'', ''x''), (''obj[bad][key]'', ''y'')])"
    by (simp_all add: keys_def)
  have p1: "parse_field_name ''obj[bad][0]'' = Some (''obj'', [''bad''] @ ''0'' # [], False)"
    by (simp add: unpack_post_eval)
  have p2: "parse_field_name ''obj[bad][key]'' = Some (''obj'', [''bad''] @ ''key'' # [], False)"
    by (simp add: unpack_post_eval)
  have d: "starts_with_digit ''0''" by (simp add: unpack_post_eval)
  have n: "py_int ''key'' = None" by (simp add: unpack_post_eval)
  have b: "\<forall>s \<in> set [''bad'']. \<not> starts_with_digit s" by (simp add: unpack_post_eval)
  have i: "\<And>ps :: string list. set (id ps) = set ps" by simp
  from unpack_post_mixed_keys_fail [OF k(1) p1 d k(2) p2 n b i] d n b show ?thesis
    by (simp add: id_def)
qed

section \<open>Submitting an entry: \<^verbatim>\<open>TaskView.post\<close>\<close>

text \<open>
  What \<^verbatim>\<open>post\<close> gives back: an HTTP response, or, on its second check, an instance
  of \<^verbatim>\<open>KeyError\<close> that is returned, not raised.
\<close>

datatype view_result = HttpResponse string | KeyErrorObject string

text \<open>
  The two checks that open \<^verbatim>\<open>TaskView.post\<close>. What follows them (loading the task,
  the form, \<^verbatim>\<open>unpack_post\<close>, \<^verbatim>\<open>_save_entry\<close>) depends on the task's own classes and
  is the argument \<open>proceed\<close>.
\<close>

definition TaskView_post ::
  "(store \<Rightarrow> querydict \<Rightarrow> (py_error + view_result) \<times> store) \<Rightarrow> store \<Rightarrow> querydict
     \<Rightarrow> (py_error + view_result) \<times> store" where
  "TaskView_post proceed st post =
     (if ''_task_id'' \<notin> set (keys post) then
        (Inl (KeyError ''Missing _task_id field. Include moonsheep_token template tag!''), st)
      else if ''_task_type'' \<notin> set (keys post) then
        (Inr (KeyErrorObject ''Missing _task_type field. Include moonsheep_token template tag!''), st)
      else proceed st post)"

text \<open>
  Claim C9. A submission that contains \<^verbatim>\<open>_task_id\<close> but not \<^verbatim>\<open>_task_type\<close> gets
  the \<^verbatim>\<open>KeyError\<close> object as the returned value and leaves the store as it was; a
  submission without \<^verbatim>\<open>_task_id\<close> raises \<^verbatim>\<open>KeyError\<close>. The rest of the handler
  is reached in neither case.
\<close>

theorem TaskView_post_missing_fields:
  "(''_task_id'' \<in> set (keys post) \<and> ''_task_type'' \<notin> set (keys post) \<longrightarrow>
      TaskView_post proceed st post =
        (Inr (KeyErrorObject ''Missing _task_type field. Include moonsheep_token template tag!''), st))
   \<and> (''_task_id'' \<notin> set (keys post) \<longrightarrow>
      TaskView_post proceed st post =
        (Inl (KeyError ''Missing _task_id field. Include moonsheep_token template tag!''), st))"
  by (simp add: TaskView_post_def)

theorem TaskView_post_missing_fields_witness:
  "TaskView_post (\<lambda>st post. (Inr (HttpResponse ''/''), st)) store1
       [(''_task_id'', ''1''), (''name'', ''Alice'')] =
        (Inr (KeyErrorObject ''Missing _task_type field. Include moonsheep_token template tag!''), store1)
   \<and> TaskView_post (\<lambda>st post. (Inr (HttpResponse ''/''), st)) store1
       [(''_task_type'', ''t''), (''name'', ''Alice'')] =
        (Inl (KeyError ''Missing _task_id field. Include moonsheep_token template tag!''), store1)"
  using TaskView_post_missing_fields [of "[(''_task_id'', ''1''), (''name'', ''Alice'')]"
      "\<lambda>st post. (Inr (HttpResponse ''/''), st)" store1]
    TaskView_post_missing_fields [of "[(''_task_type'', ''t''), (''name'', ''Alice'')]"
      "\<lambda>st post. (Inr (HttpResponse ''/''), st)" store1]
  by (simp add: keys_def)

section \<open>Manual verification: \<^verbatim>\<open>ManualVerificationView\<close>\<close>

subsection \<open>Saving the moderator's entry\<close>

text \<open>
  Modelled from the spec: \<^verbatim>\<open>AbstractTask.verified_manually\<close> is defined in
  \<^verbatim>\<open>moonsheep/tasks.py\<close>, which is not among the sources. Following section 4.4 of the
  specification, it moves a task in state dirty to state checked and fails with
  \<open>TaskNotDirty\<close> for a task in any other state; a task that does not exist is
  \<open>DoesNotExist\<close>. The hooks of the task definition act outside the store.
\<close>

definition verified_manually :: "store \<Rightarrow> nat \<Rightarrow> entry \<Rightarrow> py_error + store" where
  "verified_manually st task e =
     (case find (\<lambda>t. tid t = task) (tasks st) of
        None \<Rightarrow> Inl DoesNotExist
      | Some t \<Rightarrow>
          if state t \<noteq> DIRTY then Inl TaskNotDirty
          else Inr (st\<lparr>tasks := map (\<lambda>t'. if tid t' = task then t'\<lparr>state := CHECKED\<rparr> else t')
                                   (tasks st)\<rparr>))"

text \<open>
  \<^verbatim>\<open>ManualVerificationView._save_entry\<close>: the entry is saved, then
  \<^verbatim>\<open>self.task_type.verified_manually(task_id, e)\<close> is called, then the message is
  queued. The method of the task type is the argument \<open>verified\<close>; when it raises, the
  exception leaves \<^verbatim>\<open>_save_entry\<close> with the store as the call found it, the saved
  entry included.
\<close>

definition ManualVerificationView_save_entry ::
  "(store \<Rightarrow> nat \<Rightarrow> entry \<Rightarrow> py_error + store) \<Rightarrow> store \<Rightarrow> nat \<Rightarrow> nat \<Rightarrow> pyval
     \<Rightarrow> py_error option \<times> store" where
  "ManualVerificationView_save_entry verified st usr task d =
     (let e = \<lparr>task_id = task, user = usr, data = d, closed_manually = True\<rparr>;
          st1 = st\<lparr>entries := entries st @ [e]\<rparr>
      in case verified st1 task e of
           Inl err \<Rightarrow> (Some err, st1)
         | Inr st2 \<Rightarrow>
             (None, st2\<lparr>messages := messages st2 @ [''Thank you! We saved your entry as verified!'']\<rparr>))"

definition store3 :: store where
  "store3 =
     \<lparr>tasks = [\<lparr>tid = 1, task_type = ''t'', state = OPEN, priority = 100, parent_id = None, doc_id = 1\<rparr>,
               \<lparr>tid = 2, task_type = ''t'', state = DIRTY, priority = 50, parent_id = Some 1, doc_id = 1\<rparr>],
      entries = [], messages = []\<rparr>"

text \<open>
  Claim C3 does not hold as stated: \<^verbatim>\<open>_save_entry\<close> saves the entry before anything
  looks at the state of the task. For the open task 1 the call fails with
  \<open>TaskNotDirty\<close>, and the entry table has gained the moderator's entry.
\<close>

theorem save_entry_manual_counterexample:
  "state \<lparr>tid = 1, task_type = ''t'', state = OPEN, priority = 100, parent_id = None, doc_id = 1\<rparr> \<noteq> DIRTY
   \<and> fst (ManualVerificationView_save_entry verified_manually store3 9 1 (PDict [(''name'', PStr ''Alice'')]))
       = Some TaskNotDirty
   \<and> entries (snd (ManualVerificationView_save_entry verified_manually store3 9 1 (PDict [(''name'', PStr ''Alice'')])))
       = [\<lparr>task_id = 1, user = 9, data = PDict [(''name'', PStr ''Alice'')], closed_manually = True\<rparr>]
   \<and> entries store3 = []
   \<and> snd (ManualVerificationView_save_entry verified_manually store3 9 1 (PDict [(''name'', PStr ''Alice'')]))
       \<noteq> store3"
  by (simp add: ManualVerificationView_save_entry_def verified_manually_def store3_def Let_def)

text \<open>
  Claim C3, amended. Whenever \<^verbatim>\<open>_save_entry\<close> fails, whatever
  \<^verbatim>\<open>verified_manually\<close> is, the store is the one it found plus the new entry with
  \<^verbatim>\<open>closed_manually = True\<close> and the chosen data. With \<open>verified_manually\<close> as
  modelled: for a dirty task the entry is created, the task becomes checked and the
  message is queued; for a task in another state the call fails with \<open>TaskNotDirty\<close>,
  the task table is unchanged, and the entry has been created all the same.
\<close>

theorem save_entry_manual:
  assumes "find (\<lambda>t'. tid t' = task) (tasks st) = Some t"
  shows "(fst (ManualVerificationView_save_entry verified st usr task d) \<noteq> None \<longrightarrow>
            snd (ManualVerificationView_save_entry verified st usr task d)
              = st\<lparr>entries := entries st
                     @ [\<lparr>task_id = task, user = usr, data = d, closed_manually = True\<rparr>]\<rparr>)
       \<and> (state t = DIRTY \<longrightarrow>
            ManualVerificationView_save_entry verified_manually st usr task d =
              (None,
               st\<lparr>entries := entries st
                     @ [\<lparr>task_id = task, user = usr, data = d, closed_manually = True\<rparr>],
                  tasks := map (\<lambda>t'. if tid t' = task then t'\<lparr>state := CHECKED\<rparr> else t') (tasks st),
                  messages := messages st @ [''Thank you! We saved your entry as verified!'']\<rparr>))
       \<and> (state t \<noteq> DIRTY \<longrightarrow>
            ManualVerificationView_save_entry verified_manually st usr task d =
              (Some TaskNotDirty,
               st\<lparr>entries := entries st
                     @ [\<lparr>task_id = task, user = usr, data = d, closed_manually = True\<rparr>]\<rparr>))"
  using assms
  by (auto simp: ManualVerificationView_save_entry_def verified_manually_def Let_def
      split: sum.splits)

theorem save_entry_manual_witness:
  "ManualVerificationView_save_entry verified_manually store3 9 2 (PDict [(''name'', PStr ''Alice'')]) =
     (None,
      \<lparr>tasks = [\<lparr>tid = 1, task_type = ''t'', state = OPEN, priority = 100, parent_id = None, doc_id = 1\<rparr>,
                \<lparr>tid = 2, task_type = ''t'', state = CHECKED, priority = 50, parent_id = Some 1, doc_id = 1\<rparr>],
       entries = [\<lparr>task_id = 2, user = 9, data = PDict [(''name'', PStr ''Alice'')], closed_manually = True\<rparr>],
       messages = [''Thank you! We saved your entry as verified!'']\<rparr>)
   \<and> ManualVerificationView_save_entry verified_manually store3 9 1 (PDict [(''name'', PStr ''Alice'')]) =
     (Some TaskNotDirty,
      \<lparr>tasks = [\<lparr>tid = 1, task_type = ''t'', state = OPEN, priority = 100, parent_id = None, doc_id = 1\<rparr>,
                \<lparr>tid = 2, task_type = ''t'', state = DIRTY, priority = 50, parent_id = Some 1, doc_id = 1\<rparr>],
       entries = [\<lparr>task_id = 1, user = 9, data = PDict [(''name'', PStr ''Alice'')], closed_manually = True\<rparr>],
       messages = []\<rparr>)"
proof -
  have f2: "find (\<lambda>t'. tid t' = 2) (tasks store3)
      = Some \<lparr>tid = 2, task_type = ''t'', state = DIRTY, priority = 50, parent_id = Some 1, doc_id = 1\<rparr>"
    by (simp add: store3_def)
  have f1: "find (\<lambda>t'. tid t' = 1) (tasks store3)
      = Some \<lparr>tid = 1, task_type = ''t'', state = OPEN, priority = 100, parent_id = None, doc_id = 1\<rparr>"
    by (simp add: store3_def)
  from save_entry_manual [OF f2, of verified_manually 9 "PDict [(''name'', PStr ''Alice'')]"]
       save_entry_manual [OF f1, of verified_manually 9 "PDict [(''name'', PStr ''Alice'')]"]
  show ?thesis by (simp add: store3_def)
qed

subsection \<open>The values entered per field\<close>

text \<open>
  \<^verbatim>\<open>ManualVerificationView.get_context_data\<close> collects, for each field, the set of the
  values that the entries of the task give it. A Python set holds hashable values only:
  \<^verbatim>\<open>values.add(value)\<close> raises \<^verbatim>\<open>TypeError\<close> for a list or a dictionary. The sets
  are held as lists without repetition; \<^verbatim>\<open>list(values)\<close> leaves their order open.
\<close>

fun hashable :: "pyval \<Rightarrow> bool" where
  "hashable (PList xs) = False"
| "hashable (PDict d) = False"
| "hashable v = True"

definition values_add :: "pyval \<Rightarrow> pyval list \<Rightarrow> py_error + pyval list" where
  "values_add v values =
     (if hashable v then Inr (set_add v values) else Inl (TypeError ''unhashable type''))"

text \<open>\<^verbatim>\<open>for fld, value in e.data.items()\<close>\<close>

fun add_items ::
  "(string \<times> pyval) list \<Rightarrow> (string \<times> pyval list) list \<Rightarrow> py_error + (string \<times> pyval list) list" where
  "add_items [] flds = Inr flds"
| "add_items ((fld, v) # items) flds =
     (case values_add v (case map_of flds fld of None \<Rightarrow> [] | Some values \<Rightarrow> values) of
        Inl e \<Rightarrow> Inl e
      | Inr values \<Rightarrow> add_items items (dict_set fld values flds))"

text \<open>\<^verbatim>\<open>for e in entries\<close>; data that is not a dictionary has no \<^verbatim>\<open>items\<close>.\<close>

fun repack_entries ::
  "entry list \<Rightarrow> (string \<times> pyval list) list \<Rightarrow> py_error + (string \<times> pyval list) list" where
  "repack_entries [] flds = Inr flds"
| "repack_entries (e # es) flds =
     (case data e of
        PDict items \<Rightarrow>
          (case add_items items flds of
             Inl err \<Rightarrow> Inl err
           | Inr flds' \<Rightarrow> repack_entries es flds')
      | _ \<Rightarrow> Inl (AttributeError ''items''))"

text \<open>The entries are those of the task: \<^verbatim>\<open>self.task_type.instance.entry_set.all()\<close>.\<close>

definition entries_data :: "store \<Rightarrow> nat \<Rightarrow> py_error + (string \<times> pyval list) list" where
  "entries_data st task = repack_entries (filter (\<lambda>e. task_id e = task) (entries st)) []"

definition store2 :: store where
  "store2 =
     \<lparr>tasks = [\<lparr>tid = 1, task_type = ''t'', state = DIRTY, priority = 100, parent_id = None, doc_id = 1\<rparr>],
      entries = [\<lparr>task_id = 1, user = 7, data = PDict [(''name'', PStr ''Alice'')], closed_manually = False\<rparr>,
                 \<lparr>task_id = 1, user = 8, data = PDict [(''name'', PStr ''Alicia'')], closed_manually = False\<rparr>],
      messages = []\<rparr>"

lemma add_items_ok:
  "(\<exists>r. add_items items flds = Inr r) \<longleftrightarrow> (\<forall>fv \<in> set items. hashable (snd fv))"
proof (induction items arbitrary: flds)
  case Nil
  then show ?case by simp
next
  case (Cons a items)
  obtain fld v where a: "a = (fld, v)" by (cases a)
  show ?case using Cons.IH by (auto simp: a values_add_def)
qed

lemma repack_entries_ok:
  "(\<exists>r. repack_entries es flds = Inr r) \<longleftrightarrow>
     (\<forall>e \<in> set es. \<exists>items. data e = PDict items \<and> (\<forall>fv \<in> set items. hashable (snd fv)))"
proof (induction es arbitrary: flds)
  case Nil
  then show ?case by simp
next
  case (Cons e es)
  show ?case
  proof (cases "data e")
    case (PDict items)
    show ?thesis
    proof (cases "add_items items flds")
      case (Inl err)
      then have "\<not> (\<forall>fv \<in> set items. hashable (snd fv))"
        using add_items_ok [of items flds] by auto
      with Inl PDict show ?thesis by auto
    next
      case (Inr f')
      then have "\<forall>fv \<in> set items. hashable (snd fv)"
        using add_items_ok [of items flds] by auto
      with Inr PDict Cons.IH [of f'] show ?thesis by auto
    qed
  qed auto
qed

text \<open>
  Claim C10. The per-field sets are built without an error exactly when the data of every
  entry of the task is a dictionary whose values are all hashable, that is neither lists
  nor dictionaries. The normalizer produces data that is not: the forced array
  \<^verbatim>\<open>tags[]=a\<close> becomes the list \<^verbatim>\<open>['a']\<close>, and for an entry with this data the
  construction fails with \<^verbatim>\<open>TypeError\<close>.
\<close>

theorem entries_data_hashable:
  "((\<exists>r. entries_data st task = Inr r) \<longleftrightarrow>
      (\<forall>e \<in> set (entries st). task_id e = task \<longrightarrow>
         (\<exists>items. data e = PDict items \<and> (\<forall>fv \<in> set items. hashable (snd fv)))))
   \<and> unpack_post id [(''tags[]'', ''a'')] = Inr (PDict [(''tags'', PList [PStr ''a''])])
   \<and> entries_data
        \<lparr>tasks = [], entries = [\<lparr>task_id = 1, user = 7,
            data = PDict [(''tags'', PList [PStr ''a''])], closed_manually = False\<rparr>],
         messages = []\<rparr> 1
       = Inl (TypeError ''unhashable type'')"
proof -
  have "(\<exists>r. entries_data st task = Inr r) \<longleftrightarrow>
      (\<forall>e \<in> set (entries st). task_id e = task \<longrightarrow>
         (\<exists>items. data e = PDict items \<and> (\<forall>fv \<in> set items. hashable (snd fv))))"
    unfolding entries_data_def repack_entries_ok by auto
  moreover have "entries_data
        \<lparr>tasks = [], entries = [\<lparr>task_id = 1, user = 7,
            data = PDict [(''tags'', PList [PStr ''a''])], closed_manually = False\<rparr>],
         messages = []\<rparr> 1
       = Inl (TypeError ''unhashable type'')"
    by (simp add: entries_data_def values_add_def)
  ultimately show ?thesis using unpack_post_forced by blast
qed

theorem entries_data_hashable_witness:
  "entries_data store2 1 = Inr [(''name'', [PStr ''Alice'', PStr ''Alicia''])]
   \<and> (\<exists>r. entries_data store2 1 = Inr r)"
proof -
  have "\<forall>e \<in> set (entries store2). task_id e = 1 \<longrightarrow>
         (\<exists>items. data e = PDict items \<and> (\<forall>fv \<in> set items. hashable (snd fv)))"
    by (simp add: store2_def)
  with entries_data_hashable [of store2 1] have "\<exists>r. entries_data store2 1 = Inr r" by blast
  moreover have "entries_data store2 1 = Inr [(''name'', [PStr ''Alice'', PStr ''Alicia''])]"
    by (simp add: entries_data_def store2_def values_add_def set_add_def)
  ultimately show ?thesis by blast
qed

section \<open>The task tree of a document: \<^verbatim>\<open>DocumentListView.get_context_data\<close>\<close>

text \<open>
  The loop builds dictionaries that refer to each other: a node is put into \<^verbatim>\<open>nodes\<close>
  under the id of its task and appended to the \<^verbatim>\<open>children\<close> list of another node,
  and later appends to its own list are seen through both references. The nodes therefore
  live in a heap, a list indexed by address; \<^verbatim>\<open>nodes\<close> maps a key (\<^verbatim>\<open>None\<close> or a
  task id) to an address, and a \<^verbatim>\<open>children\<close> list holds addresses. The root node,
  \<^verbatim>\<open>{'children': []}\<close>, has no task.
\<close>

type_synonym addr = nat

record node =
  node_task :: "task option"
  children :: "addr list"

record tree_build =
  heap :: "node list"
  nodes :: "nat option \<rightharpoonup> addr"

text \<open>\<^verbatim>\<open>Task.objects.filter(doc_id=get_doc_details).order_by('id')\<close>\<close>

definition tasks_of_document :: "store \<Rightarrow> nat \<Rightarrow> task list" where
  "tasks_of_document st d = sort_key tid (filter (\<lambda>t. doc_id t = d) (tasks st))"

definition key_repr :: "nat option \<Rightarrow> string" where
  "key_repr k = (case k of None \<Rightarrow> ''None'' | Some p \<Rightarrow> py_str (int p))"

text \<open>
  The body of the loop: the node is allocated and registered under \<^verbatim>\<open>t.id\<close>, then
  \<^verbatim>\<open>nodes[t.parent_id]\<close> is looked up, a \<^verbatim>\<open>KeyError\<close> when the key is absent, and
  the new node's address is appended to the children of the node found.
\<close>

definition register_task :: "task \<Rightarrow> tree_build \<Rightarrow> py_error + tree_build" where
  "register_task t s =
     (let a = length (heap s);
          heap1 = heap s @ [\<lparr>node_task = Some t, children = []\<rparr>];
          nodes1 = (nodes s)(Some (tid t) \<mapsto> a)
      in case nodes1 (parent_id t) of
           None \<Rightarrow> Inl (KeyError (key_repr (parent_id t)))
         | Some p \<Rightarrow>
             Inr \<lparr>heap = heap1[p := (heap1 ! p)\<lparr>children := children (heap1 ! p) @ [a]\<rparr>],
                  nodes = nodes1\<rparr>)"

fun register_tasks :: "task list \<Rightarrow> tree_build \<Rightarrow> py_error + tree_build" where
  "register_tasks [] s = Inr s"
| "register_tasks (t # ts) s =
     (case register_task t s of Inl e \<Rightarrow> Inl e | Inr s' \<Rightarrow> register_tasks ts s')"

text \<open>\<^verbatim>\<open>nodes = {None: {'children': []}}\<close>: the root node at address 0.\<close>

definition initial_nodes :: tree_build where
  "initial_nodes = \<lparr>heap = [\<lparr>node_task = None, children = []\<rparr>], nodes = [None \<mapsto> 0]\<rparr>"

text \<open>
  The heap and the dictionary after the loop; \<^verbatim>\<open>progress_tree\<close> is the node at
  \<^verbatim>\<open>nodes[None]\<close>.
\<close>

definition build_task_tree :: "store \<Rightarrow> nat \<Rightarrow> py_error + tree_build" where
  "build_task_tree st d = register_tasks (tasks_of_document st d) initial_nodes"

definition store4 :: store where
  "store4 =
     \<lparr>tasks =
        [\<lparr>tid = 1, task_type = ''t'', state = OPEN, priority = 100, parent_id = Some 2, doc_id = 1\<rparr>,
         \<lparr>tid = 2, task_type = ''t'', state = OPEN, priority = 100, parent_id = None, doc_id = 1\<rparr>],
      entries = [], messages = []\<rparr>"

subsection \<open>The invariant of the loop\<close>

text \<open>
  \<open>kids ts k\<close> are the addresses of the tasks of \<open>ts\<close> whose parent reference is \<open>k\<close>,
  the task at position \<open>i\<close> having the address \<open>i + 1\<close>. \<open>parents_first\<close> says that the
  ids are distinct and every parent reference names a task that stands earlier in the
  list. \<open>tree_inv ts s\<close> describes the heap and the dictionary after the tasks \<open>ts\<close>.
\<close>

definition kids :: "task list \<Rightarrow> nat option \<Rightarrow> addr list" where
  "kids ts k = map Suc (filter (\<lambda>i. parent_id (ts ! i) = k) [0..<length ts])"

definition parents_first :: "task list \<Rightarrow> bool" where
  "parents_first ts =
     (distinct (map tid ts)
      \<and> (\<forall>i < length ts. \<forall>p. parent_id (ts ! i) = Some p \<longrightarrow> (\<exists>j < i. tid (ts ! j) = p)))"

definition tree_inv :: "task list \<Rightarrow> tree_build \<Rightarrow> bool" where
  "tree_inv ts s =
     (length (heap s) = Suc (length ts)
      \<and> node_task (heap s ! 0) = None
      \<and> children (heap s ! 0) = kids ts None
      \<and> nodes s None = Some 0
      \<and> (\<forall>i < length ts. node_task (heap s ! Suc i) = Some (ts ! i)
            \<and> children (heap s ! Suc i) = kids ts (Some (tid (ts ! i)))
            \<and> nodes s (Some (tid (ts ! i))) = Some (Suc i))
      \<and> (\<forall>p. p \<notin> tid ` set ts \<longrightarrow> nodes s (Some p) = None))"

lemma kids_snoc:
  "kids (ts @ [t]) k = kids ts k @ (if parent_id t = k then [Suc (length ts)] else [])"
proof -
  have "filter (\<lambda>i. parent_id ((ts @ [t]) ! i) = k) [0..<length ts]
      = filter (\<lambda>i. parent_id (ts ! i) = k) [0..<length ts]"
    by (rule filter_cong) (auto simp: nth_append)
  then show ?thesis by (simp add: kids_def)
qed

lemma register_tasks_snoc:
  "register_tasks (ts @ [t]) s =
     (case register_tasks ts s of Inl e \<Rightarrow> Inl e | Inr s' \<Rightarrow> register_task t s')"
  by (induction ts arbitrary: s) (auto split: sum.splits)

lemma parents_first_butlast: "parents_first (ts @ [t]) \<Longrightarrow> parents_first ts"
  unfolding parents_first_def
proof (intro conjI allI impI)
  assume a: "distinct (map tid (ts @ [t])) \<and>
    (\<forall>i<length (ts @ [t]). \<forall>p. parent_id ((ts @ [t]) ! i) = Some p \<longrightarrow> (\<exists>j<i. tid ((ts @ [t]) ! j) = p))"
  then show "distinct (map tid ts)" by simp
  fix i p assume i: "i < length ts" and p: "parent_id (ts ! i) = Some p"
  from a i p have "\<exists>j<i. tid ((ts @ [t]) ! j) = p"
    by (auto simp: nth_append dest!: spec [where x = i])
  then obtain j where "j < i" "tid ((ts @ [t]) ! j) = p" by blast
  with i show "\<exists>j<i. tid (ts ! j) = p" by (auto simp: nth_append)
qed

lemma parents_first_last:
  assumes "parents_first (ts @ [t])"
  shows "tid t \<notin> tid ` set ts"
    and "parent_id t = Some p \<Longrightarrow> \<exists>j < length ts. tid (ts ! j) = p"
    and "parent_id t \<noteq> Some (tid t)"
    and "kids ts (Some (tid t)) = []"
proof -
  from assms have d: "distinct (map tid (ts @ [t]))"
    and h: "\<And>i p. i < Suc (length ts) \<Longrightarrow> parent_id ((ts @ [t]) ! i) = Some p
        \<Longrightarrow> \<exists>j<i. tid ((ts @ [t]) ! j) = p"
    by (auto simp: parents_first_def)
  from d show n: "tid t \<notin> tid ` set ts" by auto
  have last: "parent_id t = Some q \<Longrightarrow> \<exists>j < length ts. tid (ts ! j) = q" for q
  proof -
    assume "parent_id t = Some q"
    with h [of "length ts" q] obtain j where "j < length ts" "tid ((ts @ [t]) ! j) = q" by auto
    then show ?thesis by (auto simp: nth_append)
  qed
  then show "parent_id t = Some p \<Longrightarrow> \<exists>j < length ts. tid (ts ! j) = p" .
  show "parent_id t \<noteq> Some (tid t)"
  proof
    assume "parent_id t = Some (tid t)"
    from last [OF this] n show False by (metis image_eqI nth_mem)
  qed
  show "kids ts (Some (tid t)) = []"
  proof -
    have "\<not> parent_id (ts ! i) = Some (tid t)" if i: "i < length ts" for i
    proof
      assume "parent_id (ts ! i) = Some (tid t)"
      with h [of i "tid t"] i obtain j where "j < i" "tid ((ts @ [t]) ! j) = tid t"
        by (auto simp: nth_append)
      with i have "tid (ts ! j) = tid t" "j < length ts" by (auto simp: nth_append)
      with n show False by (metis image_eqI nth_mem)
    qed
    then show ?thesis by (simp add: kids_def filter_empty_conv)
  qed
qed

lemma tree_inv_initial: "tree_inv [] initial_nodes"
  by (simp add: tree_inv_def initial_nodes_def kids_def)

lemma tree_inv_step:
  assumes inv: "tree_inv ts s" and pf: "parents_first (ts @ [t])"
  shows "\<exists>s'. register_task t s = Inr s' \<and> tree_inv (ts @ [t]) s'"
proof -
  let ?n = "length ts"
  let ?a = "Suc ?n"
  let ?heap1 = "heap s @ [\<lparr>node_task = Some t, children = []\<rparr>]"
  let ?nodes1 = "(nodes s)(Some (tid t) \<mapsto> ?a)"
  from inv have len: "length (heap s) = ?a"
    and root: "node_task (heap s ! 0) = None" "children (heap s ! 0) = kids ts None"
      "nodes s None = Some 0"
    and nd: "\<And>i. i < ?n \<Longrightarrow> node_task (heap s ! Suc i) = Some (ts ! i)"
      "\<And>i. i < ?n \<Longrightarrow> children (heap s ! Suc i) = kids ts (Some (tid (ts ! i)))"
      "\<And>i. i < ?n \<Longrightarrow> nodes s (Some (tid (ts ! i))) = Some (Suc i)"
    and other: "\<And>p. p \<notin> tid ` set ts \<Longrightarrow> nodes s (Some p) = None"
    by (auto simp: tree_inv_def)
  note fresh = parents_first_last [OF pf]
  have dist: "distinct (map tid ts)" using pf by (auto simp: parents_first_def)
  have neq: "tid (ts ! i) \<noteq> tid t" if "i < ?n" for i
    using fresh(1) that by (metis image_eqI nth_mem)
  have inj: "i = j" if "i < ?n" "j < ?n" "tid (ts ! i) = tid (ts ! j)" for i j
    using dist that by (metis distinct_conv_nth length_map nth_map)
  \<comment> \<open>the address of the parent's node\<close>
  obtain p where p: "?nodes1 (parent_id t) = Some p" "p \<le> ?n"
    and pkey: "(p = 0 \<and> parent_id t = None) \<or> (\<exists>j < ?n. p = Suc j \<and> parent_id t = Some (tid (ts ! j)))"
  proof (cases "parent_id t")
    case None
    with root(3) show ?thesis by (intro that [of 0]) auto
  next
    case (Some q)
    from fresh(2) [OF Some] obtain j where j: "j < ?n" "tid (ts ! j) = q" by blast
    with Some neq [of j] nd(3) [of j] show ?thesis
      by (intro that [of "Suc j"]) auto
  qed
  define heap' where
    "heap' = ?heap1[p := (?heap1 ! p)\<lparr>children := children (?heap1 ! p) @ [?a]\<rparr>]"
  define s' where "s' = \<lparr>heap = heap', nodes = ?nodes1\<rparr>"
  have run: "register_task t s = Inr s'"
    using p(1) len by (simp add: register_task_def Let_def s'_def heap'_def)
  have lp: "p < length ?heap1" using p(2) len by simp
  have hp: "heap' ! b =
      (if b = p then (heap s ! b)\<lparr>children := children (heap s ! b) @ [?a]\<rparr>
       else if b = ?a then \<lparr>node_task = Some t, children = []\<rparr> else heap s ! b)"
    if "b \<le> ?a" for b
  proof -
    have "?heap1 ! p = heap s ! p" using p(2) len by (simp add: nth_append)
    moreover have "?heap1 ! b = (if b = ?a then \<lparr>node_task = Some t, children = []\<rparr> else heap s ! b)"
      using that len by (auto simp: nth_append)
    ultimately show ?thesis
      unfolding heap'_def using lp by (simp only: nth_list_update split: if_splits) auto
  qed
  have sh: "heap s' = heap'" "nodes s' = ?nodes1" by (simp_all add: s'_def)
  have pa: "p \<noteq> ?a" using p(2) by simp
  have g1: "length heap' = Suc (length (ts @ [t]))" using len by (simp add: heap'_def)
  have g2: "node_task (heap' ! 0) = None" using root(1) by (simp add: hp)
  have g3: "children (heap' ! 0) = kids (ts @ [t]) None"
    using root(2) pkey by (auto simp: hp kids_snoc)
  have g4: "?nodes1 None = Some 0" using root(3) by simp
  have g5: "node_task (heap' ! Suc i) = Some ((ts @ [t]) ! i)
        \<and> children (heap' ! Suc i) = kids (ts @ [t]) (Some (tid ((ts @ [t]) ! i)))
        \<and> ?nodes1 (Some (tid ((ts @ [t]) ! i))) = Some (Suc i)"
    if i: "i < length (ts @ [t])" for i
  proof (cases "i < ?n")
    case True
    have c: "children (heap' ! Suc i) = kids (ts @ [t]) (Some (tid (ts ! i)))"
    proof (cases "Suc i = p")
      case e: True
      with pkey True have "parent_id t = Some (tid (ts ! i))" by auto
      with e True nd(2) [of i] show ?thesis by (simp add: hp kids_snoc)
    next
      case e: False
      have "parent_id t \<noteq> Some (tid (ts ! i))"
      proof
        assume q: "parent_id t = Some (tid (ts ! i))"
        with pkey obtain j where "j < ?n" "p = Suc j" "tid (ts ! j) = tid (ts ! i)" by auto
        with inj [of j i] True e show False by auto
      qed
      with e True nd(2) [of i] show ?thesis
        by (simp add: hp kids_snoc)
    qed
    from True nd(1) [of i]
    have "node_task (heap' ! Suc i) = Some (ts ! i)" by (auto simp: hp)
    with c True nd(3) [of i] neq [of i] show ?thesis by (simp add: nth_append)
  next
    case False
    with i have e: "i = ?n" by simp
    have "heap' ! ?a = \<lparr>node_task = Some t, children = []\<rparr>"
      using pa by (simp add: hp)
    with e fresh(3,4) show ?thesis by (simp add: kids_snoc nth_append)
  qed
  have g6: "?nodes1 (Some q) = None" if "q \<notin> tid ` set (ts @ [t])" for q
    using that other [of q] by simp
  have inv': "tree_inv (ts @ [t]) s'"
    unfolding tree_inv_def sh using g1 g2 g3 g4 g5 g6 by blast
  from run inv' show ?thesis by blast
qed

lemma register_tasks_inv:
  "parents_first ts \<Longrightarrow> \<exists>s. register_tasks ts initial_nodes = Inr s \<and> tree_inv ts s"
proof (induction ts rule: rev_induct)
  case Nil
  then show ?case by (simp add: tree_inv_initial)
next
  case (snoc t ts)
  from snoc.prems have "parents_first ts" by (rule parents_first_butlast)
  with snoc.IH obtain s where s: "register_tasks ts initial_nodes = Inr s" "tree_inv ts s" by blast
  from tree_inv_step [OF s(2) snoc.prems] s(1) show ?case
    by (simp add: register_tasks_snoc)
qed

lemma sorted_parents_first:
  assumes "sorted (map tid ts)" "distinct (map tid ts)"
    and "\<forall>t \<in> set ts. \<forall>p. parent_id t = Some p \<longrightarrow> p < tid t \<and> p \<in> tid ` set ts"
  shows "parents_first ts"
  unfolding parents_first_def
proof (intro conjI allI impI)
  show "distinct (map tid ts)" by fact
  fix i p assume i: "i < length ts" and p: "parent_id (ts ! i) = Some p"
  with assms(3) have lt: "p < tid (ts ! i)" and "p \<in> tid ` set ts" by auto
  then obtain j where j: "j < length ts" "tid (ts ! j) = p"
    by (auto simp: in_set_conv_nth)
  have "j < i"
  proof (rule ccontr)
    assume "\<not> j < i"
    then have "i \<le> j" by simp
    with assms(1) j(1) have "map tid ts ! i \<le> map tid ts ! j"
      by (intro sorted_nth_mono) auto
    with i j lt show False by simp
  qed
  with j show "\<exists>j<i. tid (ts ! j) = p" by blast
qed

lemmas build_task_tree_eval =
  build_task_tree_def tasks_of_document_def register_task_def initial_nodes_def key_repr_def
  py_str_def str_nat.simps digit_char_def

subsection \<open>The tree\<close>

text \<open>
  Claim C4 does not hold as stated. The two tasks below form a forest in which every
  parent reference names a task of the document, but the parent has the larger id: the
  loop reaches the child first, \<^verbatim>\<open>nodes[2]\<close> does not exist yet, and the view fails
  with \<^verbatim>\<open>KeyError\<close>.
\<close>

theorem build_task_tree_linked_counterexample:
  "tasks_of_document store4 1 =
     [\<lparr>tid = 1, task_type = ''t'', state = OPEN, priority = 100, parent_id = Some 2, doc_id = 1\<rparr>,
      \<lparr>tid = 2, task_type = ''t'', state = OPEN, priority = 100, parent_id = None, doc_id = 1\<rparr>]
   \<and> 2 \<in> tid ` set (tasks_of_document store4 1)
   \<and> build_task_tree store4 1 = Inl (KeyError ''2'')"
  by (simp add: build_task_tree_eval store4_def)

text \<open>
  Claim C4, amended. If the task ids are distinct and every parent reference of a task of
  the document names a task of the document with a smaller id, the loop ends without an
  error, and then: the heap holds the root node at address 0, which has no task and is
  the one registered under \<^verbatim>\<open>None\<close>, followed by exactly one node per task, in the
  order of the ids; the children of the root are exactly the nodes of the tasks without a
  parent reference; and the children of the node of a task are exactly the nodes of the
  tasks whose parent reference is its id, each once and in the order of the ids.
\<close>

theorem build_task_tree_linked:
  assumes "distinct (map tid (tasks st))"
    and "\<forall>t \<in> set (tasks_of_document st d). \<forall>p. parent_id t = Some p \<longrightarrow>
           p < tid t \<and> p \<in> tid ` set (tasks_of_document st d)"
  shows "\<exists>s. build_task_tree st d = Inr s
     \<and> length (heap s) = Suc (length (tasks_of_document st d))
     \<and> nodes s None = Some 0
     \<and> node_task (heap s ! 0) = None
     \<and> children (heap s ! 0)
         = map Suc (filter (\<lambda>i. parent_id (tasks_of_document st d ! i) = None)
                      [0..<length (tasks_of_document st d)])
     \<and> (\<forall>j < length (tasks_of_document st d).
           node_task (heap s ! Suc j) = Some (tasks_of_document st d ! j)
         \<and> children (heap s ! Suc j)
             = map Suc (filter (\<lambda>i. parent_id (tasks_of_document st d ! i)
                                      = Some (tid (tasks_of_document st d ! j)))
                          [0..<length (tasks_of_document st d)]))"
proof -
  let ?ts = "tasks_of_document st d"
  have srt: "sorted (map tid ?ts)" by (simp add: tasks_of_document_def)
  have "distinct (map tid (filter (\<lambda>t. doc_id t = d) (tasks st)))"
    using assms(1) by (rule distinct_map_filter)
  then have "distinct (map tid ?ts)"
    unfolding tasks_of_document_def by (metis distinct_map distinct_sort set_sort)
  with srt assms(2) have "parents_first ?ts" by (intro sorted_parents_first) auto
  then obtain s where s: "register_tasks ?ts initial_nodes = Inr s" "tree_inv ?ts s"
    using register_tasks_inv by blast
  then show ?thesis
    by (auto simp: build_task_tree_def tree_inv_def kids_def)
qed

theorem build_task_tree_linked_witness:
  "\<exists>s. build_task_tree store1 1 = Inr s
     \<and> length (heap s) = 4
     \<and> node_task (heap s ! 0) = None
     \<and> children (heap s ! 0) = [1]
     \<and> children (heap s ! 1) = [2, 3]
     \<and> children (heap s ! 2) = []
     \<and> children (heap s ! 3) = []"
proof -
  have ts: "tasks_of_document store1 1 = tasks store1"
    by (simp add: tasks_of_document_def store1_def)
  have d: "distinct (map tid (tasks store1))" by (simp add: store1_def)
  have p: "\<forall>t \<in> set (tasks_of_document store1 1). \<forall>p. parent_id t = Some p \<longrightarrow>
           p < tid t \<and> p \<in> tid ` set (tasks_of_document store1 1)"
    unfolding ts by (simp add: store1_def)
  have u: "[0..<3] = [0, 1, 2]" by (simp add: upt_rec)
  from build_task_tree_linked [OF d p] obtain s where s: "build_task_tree store1 1 = Inr s"
     "length (heap s) = Suc (length (tasks_of_document store1 1))"
     "node_task (heap s ! 0) = None"
     "children (heap s ! 0)
         = map Suc (filter (\<lambda>i. parent_id (tasks_of_document store1 1 ! i) = None)
                      [0..<length (tasks_of_document store1 1)])"
     "\<forall>j < length (tasks_of_document store1 1).
         children (heap s ! Suc j)
             = map Suc (filter (\<lambda>i. parent_id (tasks_of_document store1 1 ! i)
                                      = Some (tid (tasks_of_document store1 1 ! j)))
                          [0..<length (tasks_of_document store1 1)])"
    by blast
  have l: "length (tasks store1) = 3" by (simp add: store1_def)
  have c1: "children (heap s ! 1) = [2, 3]"
    using s(5) [rule_format, of 0] unfolding ts l u by (simp add: store1_def)
  have c2: "children (heap s ! 2) = []"
    using s(5) [rule_format, of 1] unfolding ts l u by (simp add: store1_def numeral_2_eq_2)
  have c3: "children (heap s ! 3) = []"
    using s(5) [rule_format, of 2] unfolding ts l u by (simp add: store1_def numeral_3_eq_3)
  have r: "children (heap s ! 0) = [1]"
    using s(4) unfolding ts l u by (simp add: store1_def)
  have len4: "length (heap s) = 4" using s(2) unfolding ts l by simp
  from s(1) len4 s(3) r c1 c2 c3 show ?thesis by blast
qed

end
